theory Spec2Isabelle
  imports Main "HOL-Library.Multiset" "HOL-Library.Signed_Division"
begin

section \<open>The bulk loader of cmd/bulk\_load\_timescaledb/main.go\<close>

text \<open>
  The program reads a header and data lines from standard input, groups the data lines
  by hypertable into batches, and hands the batches over a channel to workers that copy
  them into the database. The functions of main.go are embedded one by one, under their
  own names. Every panic and \<open>log.Fatalf\<close> of the source is a value of type \<open>fatal\<close>,
  returned together with the state reached when it was raised.

  Go's \<open>int\<close> and \<open>int64\<close> are modelled by \<open>int\<close>: the variables of these types count
  lines, rows and fields of the input, and stay below \<open>2 ^ 63\<close> for every input of
  fewer than \<open>2 ^ 63\<close> bytes.
\<close>

subsection \<open>Library functions of Go used by the program\<close>

text \<open>\<open>strings.Split(s, ",")\<close>: the pieces of \<open>s\<close> between commas; one piece (\<open>s\<close> itself)
  when \<open>s\<close> has no comma, also for the empty string.\<close>

fun Split :: "string \<Rightarrow> string list" where
  "Split [] = [[]]"
| "Split (c # cs) =
     (if c = CHR '','' then [] # Split cs
      else (case Split cs of [] \<Rightarrow> [[c]] | p # ps \<Rightarrow> (c # p) # ps))"

text \<open>\<open>strings.SplitN(s, ",", 2)\<close>: at most two pieces, cut at the first comma.\<close>

definition SplitN2 :: "string \<Rightarrow> string list" where
  "SplitN2 s =
     (if CHR '','' \<in> set s
      then [takeWhile (\<lambda>c. c \<noteq> CHR '','') s, tl (dropWhile (\<lambda>c. c \<noteq> CHR '','') s)]
      else [s])"

text \<open>\<open>strings.Join(xs, sep)\<close>.\<close>

fun Join :: "string list \<Rightarrow> string \<Rightarrow> string" where
  "Join [] sep = []"
| "Join [x] sep = x"
| "Join (x # y # ys) sep = x @ sep @ Join (y # ys) sep"

text \<open>\<open>strconv.ParseInt(s, 10, 64)\<close>: an optional sign, then one or more decimal digits,
  and a value in the range of \<open>int64\<close>. The two errors of Go (syntax, range) are both
  \<open>None\<close>: the program panics on either.\<close>

definition is_digit :: "char \<Rightarrow> bool" where
  "is_digit c = (48 \<le> (of_char c :: nat) \<and> (of_char c :: nat) \<le> 57)"

definition digits_value :: "string \<Rightarrow> int" where
  "digits_value ds = foldl (\<lambda>v c. 10 * v + (int (of_char c) - 48)) 0 ds"

definition ParseUint :: "string \<Rightarrow> int option" where
  "ParseUint ds =
     (if ds = [] \<or> \<not> list_all is_digit ds then None else Some (digits_value ds))"

definition ParseInt :: "string \<Rightarrow> int option" where
  "ParseInt s =
     (case s of
        [] \<Rightarrow> None
      | c # cs \<Rightarrow>
          (let neg = (c = CHR ''-'');
               ds = (if c = CHR ''+'' \<or> c = CHR ''-'' then cs else s)
           in (case ParseUint ds of
                 None \<Rightarrow> None
               | Some un \<Rightarrow>
                   if \<not> neg \<and> un \<ge> 2 ^ 63 then None
                   else if neg \<and> un > 2 ^ 63 then None
                   else Some (if neg then - un else un))))"

subsection \<open>Data\<close>

text \<open>\<open>type hypertableBatch struct { hypertable string; rows []string }\<close>\<close>

record hypertableBatch =
  hypertable :: string
  rows :: "string list"

text \<open>The calls the program makes on the database, with the arguments that matter here:
  an argument of \<open>Exec\<close> is the time made of seconds and nanoseconds, or a text.\<close>

datatype db_arg = TimeArg int int | TextArg string

datatype db_call =
    Connect string
  | MustExec string
  | CreateHypertable string string int
  | Begin
  | Prepare string
  | Exec "db_arg list"
  | CloseStmt
  | Commit

text \<open>What the program can die of: the index \<open>parts[1]\<close> out of range, an error of the
  scanner, a time that does not parse, an index type that is not known, a call on the
  database that fails, and \<open>make\<close> of a channel of negative size.\<close>

datatype fatal =
    IndexOutOfRange
  | ReadError string
  | ParseIntError string
  | UnknownIndexType string
  | DbError db_call
  | MakeChanSize

text \<open>The program option vars (lines 24 to 35), set from the command line by \<open>init\<close>.\<close>

record options =
  postgresConnect :: string
  workers :: int
  batchSize :: int
  doLoad :: bool
  makeHypertable :: bool
  logBatches :: bool
  tagIndex :: string
  fieldIndex :: string
  fieldIndexCount :: int
  reportingPeriod :: int
  numberPartitions :: int

text \<open>The defaults of the flags (lines 54 to 67).\<close>

definition default_options :: options where
  "default_options =
     \<lparr>postgresConnect = ''host=postgres user=postgres sslmode=disable'',
      workers = 1, batchSize = 10000, doLoad = True, makeHypertable = True,
      logBatches = False, tagIndex = ''VALUE-TIME,TIME-VALUE'', fieldIndex = ''TIME-VALUE'',
      fieldIndexCount = - 1, reportingPeriod = 1000, numberPartitions = 1\<rparr>"

text \<open>Sequencing of steps that can panic: the first panic ends the run.\<close>

definition and_then :: "'e + 'a \<Rightarrow> ('a \<Rightarrow> 'e + 'b) \<Rightarrow> 'e + 'b" where
  "and_then r f = (case r of Inl e \<Rightarrow> Inl e | Inr x \<Rightarrow> f x)"

text \<open>
  The database is outside the program. A \<open>driver\<close> tells, for the calls made on a
  connection so far, the last of them being the call now attempted, whether that call
  succeeds. \<open>must\<close> makes one call: it is logged, and a failure is the panic of the
  source (\<open>MustConnect\<close>, \<open>MustExec\<close>, \<open>MustBegin\<close>, \<open>panic(err)\<close>).
  The statement of \<open>create_hypertable\<close> is kept as its three arguments.
\<close>

type_synonym driver = "db_call list \<Rightarrow> bool"

definition must :: "driver \<Rightarrow> db_call \<Rightarrow> db_call list \<Rightarrow> fatal \<times> db_call list + db_call list" where
  "must drv c log = (if drv (log @ [c]) then Inr (log @ [c]) else Inl (DbError c, log @ [c]))"

text \<open>A driver that never fails, and one that fails at every commit and nowhere else.\<close>

definition accepting :: driver where
  "accepting log = True"

definition commit_fails :: driver where
  "commit_fails log = (log = [] \<or> last log \<noteq> Commit)"

subsection \<open>The Reader: scan\<close>

text \<open>
  The local \<open>batch\<close> of \<open>scan\<close> is a Go map from hypertable to its rows, here an
  association list with one entry per key, in order of first insertion. Go ranges over a
  map in an unspecified order that may change from one loop to the next: the parameter
  \<open>order\<close> gives, for the number of lines read when the range loop starts, the order in
  which the entries are visited. \<open>range_order\<close> says that it visits every entry once.
\<close>

type_synonym batch_map = "(string \<times> string list) list"

definition range_order :: "(int \<Rightarrow> batch_map \<Rightarrow> batch_map) \<Rightarrow> bool" where
  "range_order order = (\<forall>k m. mset (order k m) = mset m)"

text \<open>\<open>batch[hypertable] = append(batch[hypertable], row)\<close>\<close>

fun append_row :: "batch_map \<Rightarrow> string \<Rightarrow> string \<Rightarrow> batch_map" where
  "append_row [] h r = [(h, [r])]"
| "append_row ((k, rs) # m) h r =
     (if k = h then (k, rs @ [r]) # m else (k, rs) # append_row m h r)"

text \<open>The scanner: the lines it delivers, and the error \<open>scanner.Err()\<close> reports once
  \<open>scanner.Scan()\<close> has returned false.\<close>

record scanner =
  lines :: "string list"
  err :: "string option"

text \<open>The state of \<open>scan\<close>: its locals \<open>batch\<close>, \<open>n\<close>, \<open>linesRead\<close>, and the two channels
  it writes: the batches sent on \<open>batchChan\<close> so far, oldest first, and whether
  \<open>inputDone\<close> is closed. A send waits while the channel is full; \<open>scan\<close> is given here
  as it runs when every send goes through, and the run of \<open>main\<close> further down takes
  its sends one by one, between the steps of the workers.\<close>

record reader =
  batch :: batch_map
  n :: int
  linesRead :: int
  batchChan :: "hypertableBatch list"
  inputDone :: bool

definition reader0 :: reader where
  "reader0 = \<lparr>batch = [], n = 0, linesRead = 0, batchChan = [], inputDone = False\<rparr>"

text \<open>\<open>for hypertable, rows := range batch { batchChan <- &hypertableBatch{hypertable, rows} }\<close>\<close>

definition flush :: "(int \<Rightarrow> batch_map \<Rightarrow> batch_map) \<Rightarrow> reader \<Rightarrow> reader" where
  "flush order st =
     st\<lparr>batchChan := batchChan st @
          map (\<lambda>(h, rs). \<lparr>hypertable = h, rows = rs\<rparr>) (order (linesRead st) (batch st))\<rparr>"

text \<open>The first half of a turn of the loop (lines 142 to 149): count the line, split it,
  append the row to the entry of its hypertable. \<open>parts[1]\<close> panics when the line has no
  comma; \<open>linesRead\<close> is already incremented then.\<close>

definition scan_append :: "string \<Rightarrow> reader \<Rightarrow> fatal \<times> reader + reader" where
  "scan_append line st =
     (let st1 = st\<lparr>linesRead := linesRead st + 1\<rparr>;
          parts = SplitN2 line
      in if length parts \<le> 1 then Inl (IndexOutOfRange, st1)
         else Inr (st1\<lparr>batch := append_row (batch st1) (parts ! 0) (parts ! 1),
                       n := n st1 + 1\<rparr>))"

text \<open>The whole turn: after the append, the flush when \<open>n >= itemsPerBatch\<close>
  (lines 150 to 157).\<close>

definition scan_line ::
  "(int \<Rightarrow> batch_map \<Rightarrow> batch_map) \<Rightarrow> int \<Rightarrow> string \<Rightarrow> reader \<Rightarrow> fatal \<times> reader + reader" where
  "scan_line order itemsPerBatch line st =
     (case scan_append line st of
        Inl e \<Rightarrow> Inl e
      | Inr st2 \<Rightarrow>
          if n st2 \<ge> itemsPerBatch
          then Inr ((flush order st2)\<lparr>batch := [], n := 0\<rparr>)
          else Inr st2)"

fun scan_loop ::
  "(int \<Rightarrow> batch_map \<Rightarrow> batch_map) \<Rightarrow> int \<Rightarrow> string list \<Rightarrow> reader \<Rightarrow> fatal \<times> reader + reader" where
  "scan_loop order itemsPerBatch [] st = Inr st"
| "scan_loop order itemsPerBatch (l # ls) st =
     (case scan_line order itemsPerBatch l st of
        Inl e \<Rightarrow> Inl e
      | Inr st' \<Rightarrow> scan_loop order itemsPerBatch ls st')"

text \<open>\<open>scan\<close> itself: the loop, the check of \<open>scanner.Err()\<close>, the last flush, the close
  of \<open>inputDone\<close>. It returns \<open>linesRead\<close>, and here also the state it leaves.\<close>

definition scan ::
  "(int \<Rightarrow> batch_map \<Rightarrow> batch_map) \<Rightarrow> int \<Rightarrow> scanner \<Rightarrow> fatal \<times> reader + int \<times> reader" where
  "scan order itemsPerBatch sc =
     (case scan_loop order itemsPerBatch (lines sc) reader0 of
        Inl e \<Rightarrow> Inl e
      | Inr st \<Rightarrow>
          (case err sc of
             Some e \<Rightarrow> Inl (ReadError e, st)
           | None \<Rightarrow>
               let st1 = (if n st > 0 then flush order st else st);
                   st2 = st1\<lparr>inputDone := True\<rparr>
               in Inr (linesRead st2, st2)))"

text \<open>The number of rows in a list of batches.\<close>

definition row_total :: "hypertableBatch list \<Rightarrow> int" where
  "row_total bs = (\<Sum>b\<leftarrow>bs. int (length (rows b)))"

text \<open>The rows of a list of batches, each with the hypertable of its batch; and the same
  for the entries of the map and for the lines of the input.\<close>

definition rows_of :: "hypertableBatch list \<Rightarrow> (string \<times> string) list" where
  "rows_of bs = concat (map (\<lambda>b. map (Pair (hypertable b)) (rows b)) bs)"

definition batch_pairs :: "batch_map \<Rightarrow> (string \<times> string) list" where
  "batch_pairs m = concat (map (\<lambda>(h, rs). map (Pair h) rs) m)"

definition line_pair :: "string \<Rightarrow> string \<times> string" where
  "line_pair l = (takeWhile (\<lambda>c. c \<noteq> CHR '','') l, tl (dropWhile (\<lambda>c. c \<noteq> CHR '','') l))"

definition batch_rows :: "batch_map \<Rightarrow> int" where
  "batch_rows m = (\<Sum>(h, rs)\<leftarrow>m. int (length rs))"

text \<open>The order of first insertion, one of the orders a range loop can take.\<close>

definition insertion_order :: "int \<Rightarrow> batch_map \<Rightarrow> batch_map" where
  "insertion_order k m = m"

text \<open>The state a call of \<open>scan\<close> ends in, returned or not.\<close>

definition final_reader :: "fatal \<times> reader + int \<times> reader \<Rightarrow> reader" where
  "final_reader res = (case res of Inl (e, st) \<Rightarrow> st | Inr (k, st) \<Rightarrow> st)"

text \<open>The batches a range loop over the map sends, and the invariant of the loop of
  \<open>scan\<close>: \<open>n\<close> counts the rows in the map, every line read is in the map or on the
  channel, no entry of the map and no batch on the channel is empty, \<open>n\<close> is below the
  threshold, and no batch on the channel has more rows than the threshold allows.\<close>

definition to_batches :: "batch_map \<Rightarrow> hypertableBatch list" where
  "to_batches m = map (\<lambda>(h, rs). \<lparr>hypertable = h, rows = rs\<rparr>) m"

definition reader_inv :: "int \<Rightarrow> reader \<Rightarrow> bool" where
  "reader_inv ipb st \<longleftrightarrow>
     n st = batch_rows (batch st) \<and>
     row_total (batchChan st) + n st = linesRead st \<and>
     (\<forall>(k, rs)\<in>set (batch st). rs \<noteq> []) \<and>
     (n st = 0 \<or> n st < ipb) \<and>
     (\<forall>b\<in>set (batchChan st). rows b \<noteq> [] \<and> int (length (rows b)) \<le> max 1 ipb)"

subsection \<open>The Worker: processBatches\<close>

text \<open>The globals \<open>columnCount\<close> and \<open>rowCount\<close> (lines 36 and 37), written with
  \<open>atomic.AddInt64\<close> by the workers and read by the reporter.\<close>

record counters =
  columnCount :: int
  rowCount :: int

text \<open>
  What one worker works on: the two globals, its local \<open>columnCountWorker\<close>, the calls made
  on its connection \<open>dbBench\<close>, and where it is in \<open>processBatches\<close>: before
  \<open>MustConnect\<close>, in the loop over \<open>batchChan\<close>, or past \<open>workersGroup.Done()\<close>.
  \<open>taken\<close> is not a variable of the source: it counts the turns of the loop
  \<open>for hypertableBatch := range batchChan\<close>, the batches this worker has received.
\<close>

datatype worker_pc = Connecting | Ranging | Returned

record worker = counters +
  columnCountWorker :: int
  calls :: "db_call list"
  taken :: nat
  at :: worker_pc

definition worker0 :: worker where
  "worker0 = \<lparr>columnCount = 0, rowCount = 0, columnCountWorker = 0, calls = [],
              taken = 0, at = Connecting\<rparr>"

definition db :: "driver \<Rightarrow> db_call \<Rightarrow> worker \<Rightarrow> fatal \<times> worker + worker" where
  "db drv c st =
     (case must drv c (calls st) of
        Inl (e, log) \<Rightarrow> Inl (e, st\<lparr>calls := log\<rparr>)
      | Inr log \<Rightarrow> Inr (st\<lparr>calls := log\<rparr>))"

text \<open>
  The inner loop over the fields of a row (lines 204 to 215): the field at index 0 goes
  through \<open>strconv.ParseInt\<close> and becomes a time of \<open>timeInt / 1000000000\<close> seconds and
  \<open>timeInt % 1000000000\<close> nanoseconds (both truncate towards zero in Go); the text that
  \<open>Format\<close> makes of this time depends on the time zone of the machine and is left out.
  The other fields pass as they are.
\<close>

fun convert_row :: "string list \<Rightarrow> fatal + db_arg list" where
  "convert_row [] = Inr []"
| "convert_row (v # vs) =
     (case ParseInt v of
        None \<Rightarrow> Inl (ParseIntError v)
      | Some timeInt \<Rightarrow>
          Inr (TimeArg (timeInt sdiv 1000000000) (timeInt smod 1000000000) # map TextArg vs))"

text \<open>The loop over the rows of a batch (lines 200 to 220).\<close>

fun copy_rows :: "driver \<Rightarrow> string list \<Rightarrow> worker \<Rightarrow> fatal \<times> worker + worker" where
  "copy_rows drv [] st = Inr st"
| "copy_rows drv (line # ls) st =
     (let sp = Split line;
          st1 = st\<lparr>columnCountWorker := columnCountWorker st + int (length sp)\<rparr>
      in (case convert_row sp of
            Inl e \<Rightarrow> Inl (e, st1)
          | Inr args \<Rightarrow> and_then (db drv (Exec args) st1) (copy_rows drv ls)))"

definition copyCmd :: "string \<Rightarrow> string" where
  "copyCmd h = ''COPY '' @ [CHR 0x22] @ h @ [CHR 0x22] @ '' FROM STDIN''"

text \<open>One turn of the loop of \<open>processBatches\<close> (lines 185 to 241). The line printed when
  \<open>logBatches\<close> is set changes no state and is left out.\<close>

definition processBatch ::
  "options \<Rightarrow> driver \<Rightarrow> hypertableBatch \<Rightarrow> worker \<Rightarrow> fatal \<times> worker + worker" where
  "processBatch opts drv b st0 =
     (let st = st0\<lparr>taken := taken st0 + 1\<rparr>
      in if \<not> doLoad opts then Inr st
         else
           and_then (db drv Begin st) (\<lambda>st1.
           and_then (db drv (Prepare (copyCmd (hypertable b))) st1) (\<lambda>st2.
           and_then (copy_rows drv (rows b) st2) (\<lambda>st3.
             let st4 = st3\<lparr>columnCount := columnCount st3 + columnCountWorker st3,
                           rowCount := rowCount st3 + int (length (rows b)),
                           columnCountWorker := 0\<rparr>
             in and_then (db drv CloseStmt st4) (\<lambda>st5.
                db drv Commit st5)))))"

fun batches_loop ::
  "options \<Rightarrow> driver \<Rightarrow> hypertableBatch list \<Rightarrow> worker \<Rightarrow> fatal \<times> worker + worker" where
  "batches_loop opts drv [] st = Inr st"
| "batches_loop opts drv (b # bs) st =
     and_then (processBatch opts drv b st) (batches_loop opts drv bs)"

text \<open>\<open>processBatches\<close>, given the batches this worker receives from \<open>batchChan\<close> until the
  channel is closed and empty. It connects first, whatever \<open>doLoad\<close> is. The deferred
  \<open>dbBench.Close()\<close> is left out.\<close>

definition processBatches ::
  "options \<Rightarrow> driver \<Rightarrow> hypertableBatch list \<Rightarrow> worker \<Rightarrow> fatal \<times> worker + worker" where
  "processBatches opts drv bs st =
     and_then (db drv (Connect (postgresConnect opts @ '' dbname=benchmark'')) st) (\<lambda>st1.
     and_then (batches_loop opts drv bs (st1\<lparr>at := Ranging\<rparr>)) (\<lambda>st2.
       Inr (st2\<lparr>at := Returned\<rparr>)))"

text \<open>The number of fields of the rows of a batch, the number of \<open>Exec\<close> calls in a log, and
  whether the leading field of a row parses.\<close>

definition field_total :: "string list \<Rightarrow> int" where
  "field_total ls = (\<Sum>l\<leftarrow>ls. int (length (Split l)))"

definition is_Exec :: "db_call \<Rightarrow> bool" where
  "is_Exec c = (case c of Exec args \<Rightarrow> True | _ \<Rightarrow> False)"

definition exec_count :: "db_call list \<Rightarrow> nat" where
  "exec_count log = length (filter is_Exec log)"

definition leading_field :: "string \<Rightarrow> string" where
  "leading_field line = takeWhile (\<lambda>c. c \<noteq> CHR '','') line"

definition row_parses :: "string \<Rightarrow> bool" where
  "row_parses line = (ParseInt (leading_field line) \<noteq> None)"

subsection \<open>The Reporter: report\<close>

text \<open>
  Times are in nanoseconds since the epoch. A \<open>tick\<close> is one value received from the
  channel of \<open>time.Tick\<close>, with the values the two atomic loads return then.
  A rate \<open>float64(c) / float64(took.Seconds())\<close> is kept as the count and the duration it
  is made of, \<open>Rate c took\<close>: the floating-point quotient is not computed.
\<close>

record tick =
  tick_now :: int
  tick_colCount :: int
  tick_rowCount :: int

datatype rate = Rate int int

text \<open>The values printed by the \<open>Printf\<close> of line 127, in its order.\<close>

record report_line =
  line_time :: int
  line_colrate :: rate
  line_rowrate :: rate
  line_overallRowrate :: rate
  line_totalRows :: int

record reporter =
  start :: int
  prevTime :: int
  prevColCount :: int
  prevRowCount :: int

fun report_loop :: "tick list \<Rightarrow> reporter \<Rightarrow> report_line list" where
  "report_loop [] st = []"
| "report_loop (t # ts) st =
     (let now = tick_now t; colCount = tick_colCount t; rowCount = tick_rowCount t;
          took = now - prevTime st;
          colrate = Rate (colCount - prevColCount st) took;
          rowrate = Rate (rowCount - prevRowCount st) took;
          overallRowrate = Rate rowCount (now - start st)
      in \<lparr>line_time = now div 1000000000, line_colrate = colrate, line_rowrate = rowrate,
          line_overallRowrate = overallRowrate, line_totalRows = rowCount\<rparr>
         # report_loop ts (st\<lparr>prevColCount := colCount, prevRowCount := rowCount,
                              prevTime := now\<rparr>))"

text \<open>\<open>report\<close>, given the time \<open>time.Now()\<close> returns at line 113 and the ticks the process
  lives to see. \<open>time.Tick\<close> returns a nil channel for a period that is not positive, and
  the loop over it never gets a value.\<close>

definition report :: "int \<Rightarrow> int \<Rightarrow> tick list \<Rightarrow> report_line list" where
  "report periodMs now0 ticks =
     (if periodMs \<le> 0 then []
      else report_loop ticks
             \<lparr>start = now0, prevTime = now0, prevColCount = 0, prevRowCount = 0\<rparr>)"

definition rates_of :: "report_line \<Rightarrow> rate list" where
  "rates_of l = [line_colrate l, line_rowrate l, line_overallRowrate l]"

text \<open>The line \<open>report\<close> prints at a tick \<open>t\<close> that follows the tick \<open>p\<close>.\<close>

definition line_of :: "int \<Rightarrow> tick \<Rightarrow> tick \<Rightarrow> report_line" where
  "line_of now0 p t =
     \<lparr>line_time = tick_now t div 1000000000,
      line_colrate = Rate (tick_colCount t - tick_colCount p) (tick_now t - tick_now p),
      line_rowrate = Rate (tick_rowCount t - tick_rowCount p) (tick_now t - tick_now p),
      line_overallRowrate = Rate (tick_rowCount t) (tick_now t - now0),
      line_totalRows = tick_rowCount t\<rparr>"

subsection \<open>The Schema Initializer: initBenchmarkDB\<close>

text \<open>The loop over the index types of a field (lines 285 to 298); \<open>indexes\<close> is the
  list of statements collected so far, \<open>table\<close> the \<open>hypertable\<close> of the line.\<close>

fun index_loop :: "string \<Rightarrow> string \<Rightarrow> string list \<Rightarrow> string list \<Rightarrow> fatal + string list" where
  "index_loop table field [] indexes = Inr indexes"
| "index_loop table field (idx # idxs) indexes =
     and_then
       (if idx = ''TIME-VALUE'' then Inr (''(time, '' @ field @ '')'')
        else if idx = ''VALUE-TIME'' then Inr (''('' @ field @ '',time)'')
        else if idx \<noteq> [] then Inl (UnknownIndexType idx)
        else Inr [])
       (\<lambda>indexDef.
          index_loop table field idxs
            (if idx \<noteq> []
             then indexes @ [''CREATE INDEX ON '' @ table @ '' '' @ indexDef]
             else indexes))"

text \<open>The locals of the loop over the header lines.\<close>

record table_def =
  partitioningField :: string
  fieldDef :: "string list"
  indexes :: "string list"

text \<open>The loop over the fields \<open>parts[1:]\<close> of a header line (lines 271 to 300).\<close>

fun fields_loop :: "options \<Rightarrow> string \<Rightarrow> int \<Rightarrow> string list \<Rightarrow> table_def \<Rightarrow> fatal + table_def" where
  "fields_loop opts table idx [] td = Inr td"
| "fields_loop opts table idx (field # fs) td =
     (if length field = 0 then fields_loop opts table (idx + 1) fs td
      else
        let fieldType = (if idx = 0 then ''TEXT'' else ''DOUBLE PRECISION'');
            idxType = (if idx = 0 then tagIndex opts else fieldIndex opts);
            td1 = td\<lparr>partitioningField := (if idx = 0 then field else partitioningField td),
                     fieldDef := fieldDef td @ [field @ '' '' @ fieldType]\<rparr>
        in if fieldIndexCount opts = - 1 \<or> idx \<le> fieldIndexCount opts
           then and_then (index_loop table field (Split idxType) (indexes td1))
                  (\<lambda>ixs. fields_loop opts table (idx + 1) fs (td1\<lparr>indexes := ixs\<rparr>))
           else fields_loop opts table (idx + 1) fs td1)"

fun must_all :: "driver \<Rightarrow> db_call list \<Rightarrow> db_call list \<Rightarrow> fatal \<times> db_call list + db_call list" where
  "must_all drv [] log = Inr log"
| "must_all drv (c # cs) log = and_then (must drv c log) (must_all drv cs)"

text \<open>The statements of one header line (lines 301 to 311), in the order they are
  executed.\<close>

definition table_calls :: "options \<Rightarrow> string \<Rightarrow> table_def \<Rightarrow> db_call list" where
  "table_calls opts table td =
     MustExec (''CREATE TABLE '' @ table @ '' (time timestamptz, ''
               @ Join (fieldDef td) '','' @ '')'')
     # map MustExec (indexes td)
     @ (if makeHypertable opts
        then [CreateHypertable table (partitioningField td) (numberPartitions opts)]
        else [])"

text \<open>The loop over the header lines (lines 259 to 312). It returns at the first empty
  line, and also when the input ends; the lines left in the scanner are returned.\<close>

fun header_loop ::
  "options \<Rightarrow> driver \<Rightarrow> string list \<Rightarrow> db_call list
     \<Rightarrow> fatal \<times> db_call list + string list \<times> db_call list" where
  "header_loop opts drv [] log = Inr ([], log)"
| "header_loop opts drv (l # ls) log =
     (if length l = 0 then Inr (ls, log)
      else
        let parts = Split l; table = hd parts
        in (case fields_loop opts table 0 (tl parts)
                   \<lparr>partitioningField = [], fieldDef = [], indexes = []\<rparr> of
              Inl e \<Rightarrow> Inl (e, log)
            | Inr td \<Rightarrow>
                and_then (must_all drv (table_calls opts table td) log)
                  (header_loop opts drv ls)))"

text \<open>The calls before the loop (lines 246 to 257). The two connections are logged in
  one list; the deferred \<open>Close\<close> calls are left out.\<close>

definition setup_calls :: "options \<Rightarrow> db_call list" where
  "setup_calls opts =
     [Connect (postgresConnect opts),
      MustExec ''DROP DATABASE IF EXISTS benchmark'',
      MustExec ''CREATE DATABASE benchmark'',
      Connect (postgresConnect opts @ '' dbname=benchmark'')]
     @ (if makeHypertable opts
        then [MustExec ''CREATE EXTENSION IF NOT EXISTS timescaledb CASCADE'',
              MustExec ''SELECT setup_timescaledb()'']
        else [])"

definition initBenchmarkDB ::
  "options \<Rightarrow> driver \<Rightarrow> string list \<Rightarrow> fatal \<times> db_call list + string list \<times> db_call list" where
  "initBenchmarkDB opts drv ls =
     and_then (must_all drv (setup_calls opts) []) (header_loop opts drv ls)"



subsection \<open>The Run Coordinator: main and its goroutines\<close>

text \<open>
  \<open>main\<close> runs the schema initializer (or skips the header), makes the two channels,
  starts \<open>workers\<close> goroutines of \<open>processBatches\<close> and the reporter, and then runs \<open>scan\<close>
  itself, closes \<open>batchChan\<close> and waits for the workers (lines 72 to 101). From the
  first \<open>go\<close> statement on the goroutines interleave, and the state below is what they
  share: the buffer of \<open>batchChan\<close> and whether it is closed, whether \<open>inputDone\<close> is
  closed, the counter of \<open>workersGroup\<close>, the two global counters, and the state of each
  worker. The reporter only reads the counters and is not part of it.

  What \<open>scan\<close> sends does not depend on the workers: \<open>outbox\<close> holds the batches \<open>scan\<close>
  has still to send, in its order, \<open>scan_panic\<close> the panic it ends in, if any, and
  \<open>rowsRead\<close> the value it returns.
\<close>

datatype main_pc = Scanning | AwaitInputDone | CloseBatchChan | WaitWorkers | Finished

record system =
  globals :: counters
  outbox :: "hypertableBatch list"
  scan_panic :: "fatal option"
  rowsRead :: int
  main_at :: main_pc
  buffer :: "hypertableBatch list"
  closed :: bool
  signalled :: bool
  waitgroup :: int
  pool :: "worker list"
  crashed :: "fatal option"

text \<open>
  A step of the main goroutine. While it is in \<open>scan\<close>: a send on \<open>batchChan\<close>, which
  has room for \<open>workers\<close> batches and blocks when full (the state stays as it is); after
  the last send the panic of \<open>scan\<close>, or else \<open>close(inputDone)\<close> (line 172). Then
  \<open><-inputDone\<close> (line 98), \<open>close(batchChan)\<close> (line 99), and \<open>workersGroup.Wait()\<close>
  (line 100), which blocks until the counter is 0.
\<close>

definition main_step :: "options \<Rightarrow> system \<Rightarrow> system" where
  "main_step opts s =
     (case main_at s of
        Scanning \<Rightarrow>
          (case outbox s of
             b # bs \<Rightarrow>
               if int (length (buffer s)) < workers opts
               then s\<lparr>buffer := buffer s @ [b], outbox := bs\<rparr>
               else s
           | [] \<Rightarrow>
               (case scan_panic s of
                  Some e \<Rightarrow> s\<lparr>crashed := Some e\<rparr>
                | None \<Rightarrow> s\<lparr>signalled := True, main_at := AwaitInputDone\<rparr>))
      | AwaitInputDone \<Rightarrow> if signalled s then s\<lparr>main_at := CloseBatchChan\<rparr> else s
      | CloseBatchChan \<Rightarrow> s\<lparr>closed := True, main_at := WaitWorkers\<rparr>
      | WaitWorkers \<Rightarrow> if waitgroup s = 0 then s\<lparr>main_at := Finished\<rparr> else s
      | Finished \<Rightarrow> s)"

text \<open>A worker works on the globals as they are now, and what it leaves is stored.\<close>

definition load_globals :: "system \<Rightarrow> worker \<Rightarrow> worker" where
  "load_globals s w = w\<lparr>columnCount := columnCount (globals s), rowCount := rowCount (globals s)\<rparr>"

definition store_worker :: "nat \<Rightarrow> worker \<Rightarrow> system \<Rightarrow> system" where
  "store_worker i w s =
     s\<lparr>pool := (pool s)[i := w],
       globals := \<lparr>columnCount = columnCount w, rowCount = rowCount w\<rparr>\<rparr>"

text \<open>
  A step of worker \<open>i\<close>: its connect; or a turn of its loop, which takes the batch at the
  head of the buffer and processes it, blocks on an empty channel that is open, and
  leaves the loop, to call \<open>workersGroup.Done()\<close> and return, on an empty channel that is
  closed. A panic of the worker ends the process. The calls of one turn are taken as
  one step: the workers share nothing but the channel and the counters.
\<close>

definition worker_step :: "options \<Rightarrow> (nat \<Rightarrow> driver) \<Rightarrow> nat \<Rightarrow> system \<Rightarrow> system" where
  "worker_step opts drv i s =
     (if i \<ge> length (pool s) then s
      else
        let w = load_globals s (pool s ! i)
        in (case at w of
              Connecting \<Rightarrow>
                (case db (drv i) (Connect (postgresConnect opts @ '' dbname=benchmark'')) w of
                   Inl (e, w') \<Rightarrow> (store_worker i w' s)\<lparr>crashed := Some e\<rparr>
                 | Inr w' \<Rightarrow> store_worker i (w'\<lparr>at := Ranging\<rparr>) s)
            | Ranging \<Rightarrow>
                (case buffer s of
                   b # bs \<Rightarrow>
                     (case processBatch opts (drv i) b w of
                        Inl (e, w') \<Rightarrow> (store_worker i w' s)\<lparr>buffer := bs, crashed := Some e\<rparr>
                      | Inr w' \<Rightarrow> (store_worker i w' s)\<lparr>buffer := bs\<rparr>)
                 | [] \<Rightarrow>
                     if closed s
                     then (store_worker i (w\<lparr>at := Returned\<rparr>) s)\<lparr>waitgroup := waitgroup s - 1\<rparr>
                     else s)
            | Returned \<Rightarrow> s))"

text \<open>The scheduler picks the goroutine that moves next; after a panic nothing moves.\<close>

datatype goroutine = Main | Worker nat

definition step :: "options \<Rightarrow> (nat \<Rightarrow> driver) \<Rightarrow> system \<Rightarrow> goroutine \<Rightarrow> system" where
  "step opts drv s g =
     (if crashed s \<noteq> None then s
      else (case g of Main \<Rightarrow> main_step opts s | Worker i \<Rightarrow> worker_step opts drv i s))"

definition run :: "options \<Rightarrow> (nat \<Rightarrow> driver) \<Rightarrow> goroutine list \<Rightarrow> system \<Rightarrow> system" where
  "run opts drv sched s = foldl (step opts drv) s sched"

text \<open>The state when \<open>main\<close> calls \<open>scan\<close> (line 96): the workers started, one
  \<open>workersGroup.Add(1)\<close> for each, both channels open and empty.\<close>

definition spawn :: "options \<Rightarrow> (int \<Rightarrow> batch_map \<Rightarrow> batch_map) \<Rightarrow> scanner \<Rightarrow> system" where
  "spawn opts order sc =
     (let r = scan order (batchSize opts) sc
      in \<lparr>globals = \<lparr>columnCount = 0, rowCount = 0\<rparr>,
          outbox = batchChan (final_reader r),
          scan_panic = (case r of Inl (e, st) \<Rightarrow> Some e | Inr x \<Rightarrow> None),
          rowsRead = linesRead (final_reader r),
          main_at = Scanning, buffer = [], closed = False, signalled = False,
          waitgroup = workers opts,
          pool = replicate (nat (workers opts)) worker0,
          crashed = None\<rparr>)"

text \<open>The loop that reads the header when \<open>doLoad\<close> is unset (lines 78 to 82).\<close>

fun skip_header :: "string list \<Rightarrow> string list" where
  "skip_header [] = []"
| "skip_header (l # ls) = (if length l = 0 then ls else skip_header ls)"

text \<open>
  \<open>main\<close>, under a schedule: either it dies before any goroutine is started, of the
  schema initializer or of \<open>make\<close> for a negative number of workers, with the calls made
  on the database so far; or the goroutines run. \<open>idrv\<close> is the database seen by the
  schema initializer, \<open>drv i\<close> the database seen by worker \<open>i\<close>.
\<close>

datatype outcome = Aborted fatal "db_call list" | Ran system

definition main ::
  "options \<Rightarrow> driver \<Rightarrow> (nat \<Rightarrow> driver) \<Rightarrow> (int \<Rightarrow> batch_map \<Rightarrow> batch_map) \<Rightarrow> scanner
     \<Rightarrow> goroutine list \<Rightarrow> outcome" where
  "main opts idrv drv order sc sched =
     (case (if doLoad opts then initBenchmarkDB opts idrv (lines sc)
            else Inr (skip_header (lines sc), [])) of
        Inl (e, log) \<Rightarrow> Aborted e log
      | Inr (rest, log) \<Rightarrow>
          if workers opts < 0 then Aborted MakeChanSize log
          else Ran (run opts drv sched (spawn opts order (sc\<lparr>lines := rest\<rparr>))))"

text \<open>The batches the workers of a state have taken, and the invariant of the run.\<close>

definition taken_total :: "system \<Rightarrow> nat" where
  "taken_total s = sum_list (map taken (pool s))"

definition running :: "worker list \<Rightarrow> nat" where
  "running ws = length (filter (\<lambda>w. at w \<noteq> Returned) ws)"

definition run_inv :: "system \<Rightarrow> bool" where
  "run_inv s \<longleftrightarrow>
     (signalled s \<longleftrightarrow> main_at s \<noteq> Scanning) \<and>
     (main_at s \<noteq> Scanning \<longrightarrow> outbox s = []) \<and>
     (closed s \<longleftrightarrow> main_at s = WaitWorkers \<or> main_at s = Finished) \<and>
     (\<forall>w\<in>set (pool s). at w = Returned \<longrightarrow> closed s \<and> buffer s = []) \<and>
     waitgroup s = int (running (pool s)) \<and>
     (main_at s = Finished \<longrightarrow> waitgroup s = 0)"

text \<open>The batches that are still to be sent, in the buffer, or taken: all of them. And the
  pools no worker of which has made a call that writes rows.\<close>

definition in_flight :: "system \<Rightarrow> nat" where
  "in_flight s = taken_total s + length (buffer s) + length (outbox s)"


text \<open>A database that fails for no worker, and an input and a schedule to run: a header
  of one table, two rows, and a schedule of one worker that takes the program to its
  end.\<close>

definition all_accepting :: "nat \<Rightarrow> driver" where
  "all_accepting i = accepting"

definition input1 :: scanner where
  "input1 = \<lparr>lines = [''cpu,host,usage'', [],
                      ''cpu,1000000000,host1,0.5'', ''cpu,2000000000,host1,0.6''],
             err = None\<rparr>"

definition sched1 :: "goroutine list" where
  "sched1 = [Worker 0, Main, Main, Worker 0, Main, Main, Worker 0, Main, Main, Worker 0, Main]"










section \<open>Properties of the Reader\<close>

lemma batch_rows_append_row: "batch_rows (append_row m h r) = batch_rows m + 1"
  by (induction m h r rule: append_row.induct) (auto simp: batch_rows_def)

lemma append_row_nonempty:
  "\<forall>(k, rs)\<in>set m. rs \<noteq> [] \<Longrightarrow> \<forall>(k, rs)\<in>set (append_row m h r). rs \<noteq> []"
  by (induction m h r rule: append_row.induct) auto

lemma map_of_append_row:
  "map_of (append_row m h r) =
     (map_of m)(h \<mapsto> (case map_of m h of None \<Rightarrow> [] | Some rs \<Rightarrow> rs) @ [r])"
  by (induction m h r rule: append_row.induct) (auto simp: fun_eq_iff)

lemma mset_batch_pairs_append_row:
  "mset (batch_pairs (append_row m h r)) = mset (batch_pairs m) + {#(h, r)#}"
  by (induction m h r rule: append_row.induct) (auto simp: batch_pairs_def)

lemma row_total_append: "row_total (xs @ ys) = row_total xs + row_total ys"
  by (simp add: row_total_def)

lemma rows_of_append: "rows_of (xs @ ys) = rows_of xs @ rows_of ys"
  by (simp add: rows_of_def)

lemma sum_list_mset_cong:
  fixes f :: "'a \<Rightarrow> 'b::comm_monoid_add"
  assumes "mset xs = mset ys"
  shows "sum_list (map f xs) = sum_list (map f ys)"
proof -
  have "sum_list (map f xs) = sum_mset (image_mset f (mset xs))"
    by (simp only: sum_mset_sum_list [symmetric] mset_map)
  also have "\<dots> = sum_mset (image_mset f (mset ys))"
    by (simp only: assms)
  also have "\<dots> = sum_list (map f ys)"
    by (simp only: sum_mset_sum_list [symmetric] mset_map)
  finally show ?thesis .
qed

lemma row_total_to_batches: "row_total (to_batches m) = batch_rows m"
  by (simp add: row_total_def batch_rows_def to_batches_def comp_def case_prod_unfold)

lemma rows_of_to_batches: "rows_of (to_batches m) = batch_pairs m"
  by (simp add: rows_of_def batch_pairs_def to_batches_def comp_def case_prod_unfold)

lemma row_total_order:
  assumes "range_order order"
  shows "row_total (to_batches (order k m)) = batch_rows m"
proof -
  have "mset (order k m) = mset m" using assms by (simp add: range_order_def)
  then have "(\<Sum>(h, rs)\<leftarrow>order k m. int (length rs)) = (\<Sum>(h, rs)\<leftarrow>m. int (length rs))"
    by (rule sum_list_mset_cong)
  then show ?thesis
    by (simp add: row_total_to_batches batch_rows_def)
qed

lemma mset_concat_cong:
  assumes "mset xs = mset ys"
  shows "mset (concat (map f xs)) = mset (concat (map f ys))"
proof -
  have "sum_list (map (mset \<circ> f) xs) = sum_list (map (mset \<circ> f) ys)"
    using assms by (rule sum_list_mset_cong)
  then show ?thesis by (simp add: mset_concat)
qed

lemma rows_of_order:
  assumes "range_order order"
  shows "mset (rows_of (to_batches (order k m))) = mset (batch_pairs m)"
proof -
  have "mset (order k m) = mset m" using assms by (simp add: range_order_def)
  then show ?thesis unfolding rows_of_to_batches batch_pairs_def by (rule mset_concat_cong)
qed

lemma set_order: "range_order order \<Longrightarrow> set (order k m) = set m"
proof -
  assume "range_order order"
  then have "mset (order k m) = mset m" by (simp add: range_order_def)
  then show ?thesis by (rule mset_eq_setD)
qed

lemma batch_rows_nonneg: "0 \<le> batch_rows m"
  unfolding batch_rows_def by (rule sum_list_nonneg) auto

lemma batch_rows_Cons: "batch_rows ((h, rs) # m) = int (length rs) + batch_rows m"
  by (simp add: batch_rows_def)

lemma length_le_batch_rows: "(h, rs) \<in> set m \<Longrightarrow> int (length rs) \<le> batch_rows m"
proof (induction m)
  case Nil
  then show ?case by simp
next
  case (Cons a m)
  obtain k ks where a: "a = (k, ks)" by (cases a)
  show ?case using Cons batch_rows_nonneg [of m] by (auto simp: a batch_rows_Cons)
qed

lemma SplitN2_comma:
  "CHR '','' \<in> set l \<Longrightarrow> SplitN2 l = [fst (line_pair l), snd (line_pair l)]"
  by (simp add: SplitN2_def line_pair_def)

lemma SplitN2_no_comma: "CHR '','' \<notin> set l \<Longrightarrow> SplitN2 l = [l]"
  by (simp add: SplitN2_def)

lemma line_pair_eq:
  "CHR '','' \<notin> set h \<Longrightarrow> line_pair (h @ CHR '','' # r) = (h, r)"
proof -
  assume h: "CHR '','' \<notin> set h"
  have "takeWhile (\<lambda>c. c \<noteq> CHR '','') (h @ CHR '','' # r) = h"
    using h by (induction h) auto
  moreover have "dropWhile (\<lambda>c. c \<noteq> CHR '','') (h @ CHR '','' # r) = CHR '','' # r"
    using h by (induction h) auto
  ultimately show ?thesis by (simp add: line_pair_def)
qed

lemma comma_decomp:
  "CHR '','' \<in> set l \<Longrightarrow> \<exists>h r. l = h @ CHR '','' # r \<and> CHR '','' \<notin> set h"
proof -
  assume "CHR '','' \<in> set l"
  then obtain h r where "l = h @ CHR '','' # r" "CHR '','' \<notin> set h"
    by (rule split_list_first [elim_format]) blast
  then show ?thesis by blast
qed

lemma reader_inv0: "reader_inv ipb reader0"
  by (simp add: reader_inv_def reader0_def batch_rows_def row_total_def)

lemma flush_eq: "flush order st = st\<lparr>batchChan := batchChan st @ to_batches (order (linesRead st) (batch st))\<rparr>"
  by (simp add: flush_def to_batches_def)

lemma scan_append_Inr:
  "scan_append l st = Inr st' \<longleftrightarrow>
     CHR '','' \<in> set l \<and>
     st' = st\<lparr>linesRead := linesRead st + 1,
              batch := append_row (batch st) (fst (line_pair l)) (snd (line_pair l)),
              n := n st + 1\<rparr>"
  by (cases "CHR '','' \<in> set l") (auto simp: scan_append_def SplitN2_comma SplitN2_no_comma Let_def)

lemma scan_append_Inl:
  "scan_append l st = Inl x \<longleftrightarrow>
     CHR '','' \<notin> set l \<and> x = (IndexOutOfRange, st\<lparr>linesRead := linesRead st + 1\<rparr>)"
  by (cases "CHR '','' \<in> set l") (auto simp: scan_append_def SplitN2_comma SplitN2_no_comma Let_def)

lemma in_to_batches: "b \<in> set (to_batches m) \<longleftrightarrow> (hypertable b, rows b) \<in> set m"
  by (cases b) (force simp: to_batches_def image_iff)

lemma flush_inv:
  assumes ro: "range_order order"
    and n: "n st = batch_rows (batch st)"
    and tot: "row_total (batchChan st) + n st = linesRead st"
    and ne: "\<forall>(k, rs)\<in>set (batch st). rs \<noteq> []"
    and le: "n st \<le> max 1 ipb"
    and ch: "\<forall>b\<in>set (batchChan st). rows b \<noteq> [] \<and> int (length (rows b)) \<le> max 1 ipb"
  shows "reader_inv ipb ((flush order st)\<lparr>batch := [], n := 0\<rparr>)"
proof -
  let ?new = "to_batches (order (linesRead st) (batch st))"
  have new: "rows b \<noteq> [] \<and> int (length (rows b)) \<le> max 1 ipb" if "b \<in> set ?new" for b
  proof -
    from that have m: "(hypertable b, rows b) \<in> set (batch st)"
      by (simp add: in_to_batches set_order [OF ro])
    with ne have "rows b \<noteq> []" by auto
    moreover from m have "int (length (rows b)) \<le> batch_rows (batch st)"
      by (rule length_le_batch_rows)
    ultimately show ?thesis using n le by simp
  qed
  have "row_total ?new = n st" by (simp add: row_total_order [OF ro] n)
  then show ?thesis using tot ch new
    by (auto simp: reader_inv_def flush_eq row_total_append batch_rows_def)
qed

lemma scan_line_inv:
  assumes ro: "range_order order" and inv: "reader_inv ipb st"
    and step: "scan_line order ipb l st = Inr st'"
  shows "reader_inv ipb st'"
proof -
  from step obtain st2 where a: "scan_append l st = Inr st2"
    by (auto simp: scan_line_def split: sum.splits)
  let ?m = "append_row (batch st) (fst (line_pair l)) (snd (line_pair l))"
  from a have st2: "st2 = st\<lparr>linesRead := linesRead st + 1, batch := ?m, n := n st + 1\<rparr>"
    by (simp add: scan_append_Inr)
  from inv have n2: "n st2 = batch_rows (batch st2)"
    by (simp add: st2 reader_inv_def batch_rows_append_row)
  from inv have tot2: "row_total (batchChan st2) + n st2 = linesRead st2"
    by (simp add: st2 reader_inv_def)
  from inv have "\<forall>(k, rs)\<in>set (batch st). rs \<noteq> []" by (simp add: reader_inv_def)
  then have ne2: "\<forall>(k, rs)\<in>set (batch st2). rs \<noteq> []"
    unfolding st2 using append_row_nonempty by simp
  from inv have ch2: "\<forall>b\<in>set (batchChan st2). rows b \<noteq> [] \<and> int (length (rows b)) \<le> max 1 ipb"
    by (simp add: st2 reader_inv_def)
  from inv have le2: "n st2 \<le> max 1 ipb"
    by (auto simp: st2 reader_inv_def)
  show ?thesis
  proof (cases "n st2 \<ge> ipb")
    case True
    with step a have "st' = (flush order st2)\<lparr>batch := [], n := 0\<rparr>"
      by (simp add: scan_line_def)
    then show ?thesis using flush_inv [OF ro n2 tot2 ne2 le2 ch2] by simp
  next
    case False
    with step a have "st' = st2" by (simp add: scan_line_def)
    then show ?thesis using n2 tot2 ne2 ch2 False by (simp add: reader_inv_def)
  qed
qed

lemma scan_line_Inl:
  "scan_line order ipb l st = Inl x \<longleftrightarrow>
     CHR '','' \<notin> set l \<and> x = (IndexOutOfRange, st\<lparr>linesRead := linesRead st + 1\<rparr>)"
proof (cases "scan_append l st")
  case (Inl y)
  then have "CHR '','' \<notin> set l" "y = (IndexOutOfRange, st\<lparr>linesRead := linesRead st + 1\<rparr>)"
    by (simp_all add: scan_append_Inl)
  then show ?thesis using Inl by (auto simp: scan_line_def)
next
  case (Inr st2)
  then have "CHR '','' \<in> set l" by (simp add: scan_append_Inr)
  then show ?thesis using Inr by (auto simp: scan_line_def)
qed

lemma scan_line_Inr_comma: "scan_line order ipb l st = Inr st' \<Longrightarrow> CHR '','' \<in> set l"
  by (auto simp: scan_line_def scan_append_Inr split: sum.splits)

lemma scan_line_total:
  "CHR '','' \<in> set l \<Longrightarrow> \<exists>st'. scan_line order ipb l st = Inr st'"
  by (cases "scan_line order ipb l st") (auto simp: scan_line_Inl)

lemma scan_line_linesRead:
  "scan_line order ipb l st = Inr st' \<Longrightarrow> linesRead st' = linesRead st + 1"
  by (auto simp: scan_line_def scan_append_Inr flush_eq split: sum.splits if_splits)

lemma batch_pairs_Nil: "batch_pairs [] = []"
  by (simp add: batch_pairs_def)

lemma scan_line_pairs:
  assumes ro: "range_order order" and step: "scan_line order ipb l st = Inr st'"
  shows "mset (rows_of (batchChan st')) + mset (batch_pairs (batch st')) =
         mset (rows_of (batchChan st)) + mset (batch_pairs (batch st)) + {#line_pair l#}"
  using step
  by (auto simp: scan_line_def scan_append_Inr flush_eq rows_of_append rows_of_order [OF ro]
      mset_batch_pairs_append_row batch_pairs_Nil split: sum.splits if_splits)

lemma scan_line_inputDone:
  "scan_line order ipb l st = Inr st' \<Longrightarrow> inputDone st' = inputDone st"
  by (auto simp: scan_line_def scan_append_Inr flush_eq split: sum.splits if_splits)

lemma scan_loop_Inr:
  assumes ro: "range_order order" and inv: "reader_inv ipb st"
    and commas: "\<forall>l\<in>set ls. CHR '','' \<in> set l"
  shows "\<exists>st'. scan_loop order ipb ls st = Inr st' \<and> reader_inv ipb st' \<and>
           linesRead st' = linesRead st + int (length ls) \<and>
           inputDone st' = inputDone st \<and>
           mset (rows_of (batchChan st')) + mset (batch_pairs (batch st')) =
           mset (rows_of (batchChan st)) + mset (batch_pairs (batch st)) + mset (map line_pair ls)"
  using inv commas
proof (induction ls arbitrary: st)
  case Nil
  then show ?case by simp
next
  case (Cons l ls)
  from Cons.prems obtain st1 where s1: "scan_line order ipb l st = Inr st1"
    using scan_line_total [of l order ipb st] by auto
  have inv1: "reader_inv ipb st1" using ro Cons.prems(1) s1 by (rule scan_line_inv)
  from Cons.IH [OF inv1] Cons.prems(2) obtain st' where
    r: "scan_loop order ipb ls st1 = Inr st'" "reader_inv ipb st'"
       "linesRead st' = linesRead st1 + int (length ls)"
       "inputDone st' = inputDone st1"
       "mset (rows_of (batchChan st')) + mset (batch_pairs (batch st')) =
        mset (rows_of (batchChan st1)) + mset (batch_pairs (batch st1)) + mset (map line_pair ls)"
    by auto
  show ?case
    using r s1 scan_line_linesRead [OF s1] scan_line_pairs [OF ro s1] scan_line_inputDone [OF s1]
    by simp
qed


lemma scan_loop_Inl_iff:
  "(\<exists>x. scan_loop order ipb ls st = Inl x) \<longleftrightarrow> (\<exists>l\<in>set ls. CHR '','' \<notin> set l)"
proof (induction ls arbitrary: st)
  case Nil
  then show ?case by simp
next
  case (Cons l ls)
  show ?case
  proof (cases "scan_line order ipb l st")
    case (Inl x)
    then have "scan_loop order ipb (l # ls) st = Inl x" by simp
    moreover from Inl have "CHR '','' \<notin> set l" by (simp add: scan_line_Inl)
    ultimately show ?thesis by auto
  next
    case (Inr st1)
    then show ?thesis using Cons.IH [of st1] scan_line_Inr_comma [OF Inr] by auto
  qed
qed

lemma scan_loop_Inl_error:
  "scan_loop order ipb ls st = Inl (e, st') \<Longrightarrow> e = IndexOutOfRange"
proof (induction ls arbitrary: st)
  case Nil
  then show ?case by simp
next
  case (Cons l ls)
  then show ?case
    by (cases "scan_line order ipb l st") (auto simp: scan_line_Inl)
qed











text \<open>A map without rows whose entries are not empty has no entry.\<close>

lemma batch_rows_zero:
  assumes "batch_rows m = 0" and "\<forall>(k, rs)\<in>set m. rs \<noteq> []"
  shows "m = []"
proof (cases m)
  case Nil
  then show ?thesis .
next
  case (Cons a m')
  obtain k rs where a: "a = (k, rs)" by (cases a)
  from assms(2) have "rs \<noteq> []" by (simp add: Cons a)
  then have "0 < int (length rs)" by simp
  with assms(1) batch_rows_nonneg [of m'] show ?thesis by (simp add: Cons a batch_rows_Cons)
qed

subsection \<open>Claim C1: rows read and rows enqueued\<close>

text \<open>
  C1, as amended. For every input whose lines each hold a comma and that the scanner reads
  without error, whatever the batch size and the order of the range loops: \<open>scan\<close>
  returns, the value it returns is the number of lines of the input, the row counts of
  the batches it has put on \<open>batchChan\<close> add up to that number, the rows on the channel,
  each with the hypertable of its batch, are exactly the lines of the input, each as
  often as it occurs (none dropped, none duplicated), and \<open>inputDone\<close> is closed.
\<close>

theorem scan_conserves_rows:
  assumes ro: "range_order order"
    and commas: "\<forall>l\<in>set (lines sc). CHR '','' \<in> set l"
    and noerr: "err sc = None"
  shows "\<exists>st. scan order itemsPerBatch sc = Inr (int (length (lines sc)), st) \<and>
           linesRead st = int (length (lines sc)) \<and>
           row_total (batchChan st) = int (length (lines sc)) \<and>
           mset (rows_of (batchChan st)) = mset (map line_pair (lines sc)) \<and>
           inputDone st"
proof -
  from scan_loop_Inr [OF ro reader_inv0 commas, of itemsPerBatch]
  obtain st where
    loop: "scan_loop order itemsPerBatch (lines sc) reader0 = Inr st"
    and inv: "reader_inv itemsPerBatch st"
    and lr: "linesRead st = int (length (lines sc))"
    and pairs: "mset (rows_of (batchChan st)) + mset (batch_pairs (batch st)) =
                mset (map line_pair (lines sc))"
    by (auto simp: reader0_def rows_of_def batch_pairs_def)
  let ?st1 = "if n st > 0 then flush order st else st"
  let ?st2 = "?st1\<lparr>inputDone := True\<rparr>"
  have res: "scan order itemsPerBatch sc = Inr (linesRead ?st2, ?st2)"
    by (simp add: scan_def loop noerr Let_def)
  have lr2: "linesRead ?st2 = int (length (lines sc))"
    by (simp add: lr flush_eq)
  have tot: "row_total (batchChan ?st2) = int (length (lines sc))"
  proof (cases "n st > 0")
    case True
    then show ?thesis using inv lr
      by (simp add: flush_eq row_total_append row_total_order [OF ro] reader_inv_def)
  next
    case False
    then show ?thesis using inv lr batch_rows_nonneg [of "batch st"]
      by (simp add: reader_inv_def)
  qed
  have ps: "mset (rows_of (batchChan ?st2)) = mset (map line_pair (lines sc))"
  proof (cases "n st > 0")
    case True
    then show ?thesis using pairs
      by (simp add: flush_eq rows_of_append rows_of_order [OF ro])
  next
    case False
    with inv have "batch_rows (batch st) = 0" "\<forall>(k, rs)\<in>set (batch st). rs \<noteq> []"
      using batch_rows_nonneg [of "batch st"] by (auto simp: reader_inv_def)
    then have "batch st = []" by (rule batch_rows_zero)
    then show ?thesis using pairs False by (simp add: batch_pairs_Nil)
  qed
  show ?thesis using res lr2 tot ps by (intro exI [of _ ?st2]) simp
qed

text \<open>The definitions a concrete run of \<open>scan\<close> unfolds.\<close>

lemmas scan_eval = scan_def scan_loop.simps scan_line_def scan_append_def SplitN2_def
  flush_def reader0_def insertion_order_def Let_def final_reader_def

lemma range_order_insertion: "range_order insertion_order"
  by (simp add: range_order_def insertion_order_def)

text \<open>C1 at three lines of two hypertables, batch size 2.\<close>

theorem scan_conserves_rows_witness:
  "range_order insertion_order \<and>
   (\<exists>st. scan insertion_order 2
          \<lparr>lines = [''cpu,1,a'', ''mem,2,b'', ''cpu,3,c''], err = None\<rparr> = Inr (3, st) \<and>
        row_total (batchChan st) = 3 \<and> inputDone st)"
proof -
  let ?sc = "\<lparr>lines = [''cpu,1,a'', ''mem,2,b'', ''cpu,3,c''], err = None\<rparr>"
  have h2: "\<forall>l\<in>set (lines ?sc). CHR '','' \<in> set l" by simp
  have h3: "err ?sc = None" by simp
  from scan_conserves_rows [OF range_order_insertion h2 h3, of 2]
  show ?thesis by (auto simp: range_order_insertion)
qed

text \<open>
  C1 as stated fails for an input with a line that has no comma: at the second line
  below \<open>scan\<close> panics. It has counted two lines, the row of the first is still in the
  map, nothing is on the channel, and \<open>scan\<close> returns nothing.
\<close>

theorem scan_no_comma_counterexample:
  "scan insertion_order 10 \<lparr>lines = [''cpu,1000000000,host1,0.5'', ''cpu''], err = None\<rparr> =
     Inl (IndexOutOfRange,
          \<lparr>batch = [(''cpu'', [''1000000000,host1,0.5''])], n = 1, linesRead = 2,
           batchChan = [], inputDone = False\<rparr>)"
  by (simp add: scan_eval)


subsection \<open>Claim C4: the size of a batch\<close>




subsection \<open>Claim C10: a line without a comma\<close>

text \<open>
  C10. A line without a comma makes the turn of the loop panic with an index out of
  range, the line already counted. A line \<open>h,r\<close> with no comma in \<open>h\<close> appends \<open>r\<close> to
  the rows the map holds for \<open>h\<close> (to none, when \<open>h\<close> is new). And \<open>scan\<close> as a whole dies
  of an index out of range exactly when some line of the input has no comma.
\<close>

theorem scan_split_precondition:
  "(CHR '','' \<notin> set line \<longrightarrow>
      scan_append line st = Inl (IndexOutOfRange, st\<lparr>linesRead := linesRead st + 1\<rparr>)) \<and>
   (CHR '','' \<notin> set h \<longrightarrow>
      (\<exists>st'. scan_append (h @ CHR '','' # r) st = Inr st' \<and>
         map_of (batch st') =
           (map_of (batch st))(h \<mapsto> (case map_of (batch st) h of None \<Rightarrow> [] | Some rs \<Rightarrow> rs) @ [r]))) \<and>
   ((\<exists>st'. scan order itemsPerBatch sc = Inl (IndexOutOfRange, st')) \<longleftrightarrow>
      (\<exists>l\<in>set (lines sc). CHR '','' \<notin> set l))"
proof (intro conjI impI)
  assume "CHR '','' \<notin> set line"
  then show "scan_append line st = Inl (IndexOutOfRange, st\<lparr>linesRead := linesRead st + 1\<rparr>)"
    by (simp add: scan_append_Inl)
next
  assume h: "CHR '','' \<notin> set h"
  let ?st' = "st\<lparr>linesRead := linesRead st + 1, batch := append_row (batch st) h r, n := n st + 1\<rparr>"
  have "scan_append (h @ CHR '','' # r) st = Inr ?st'"
    by (simp add: scan_append_Inr line_pair_eq [OF h])
  moreover have "map_of (batch ?st') =
      (map_of (batch st))(h \<mapsto> (case map_of (batch st) h of None \<Rightarrow> [] | Some rs \<Rightarrow> rs) @ [r])"
    by (simp add: map_of_append_row)
  ultimately show "\<exists>st'. scan_append (h @ CHR '','' # r) st = Inr st' \<and>
         map_of (batch st') =
           (map_of (batch st))(h \<mapsto> (case map_of (batch st) h of None \<Rightarrow> [] | Some rs \<Rightarrow> rs) @ [r])"
    by blast
next
  show "(\<exists>st'. scan order itemsPerBatch sc = Inl (IndexOutOfRange, st')) \<longleftrightarrow>
      (\<exists>l\<in>set (lines sc). CHR '','' \<notin> set l)"
  proof (cases "scan_loop order itemsPerBatch (lines sc) reader0")
    case (Inl x)
    obtain e st1 where x: "x = (e, st1)" by (cases x)
    from Inl have "e = IndexOutOfRange" unfolding x by (rule scan_loop_Inl_error)
    then have "scan order itemsPerBatch sc = Inl (IndexOutOfRange, st1)"
      by (simp add: scan_def Inl x)
    moreover have "\<exists>l\<in>set (lines sc). CHR '','' \<notin> set l"
      using scan_loop_Inl_iff [of order itemsPerBatch "lines sc" reader0] Inl by blast
    ultimately show ?thesis by blast
  next
    case (Inr st1)
    then have "\<not> (\<exists>l\<in>set (lines sc). CHR '','' \<notin> set l)"
      using scan_loop_Inl_iff [of order itemsPerBatch "lines sc" reader0] by simp
    moreover have "\<not> (\<exists>st'. scan order itemsPerBatch sc = Inl (IndexOutOfRange, st'))"
      by (simp add: scan_def Inr Let_def split: option.splits)
    ultimately show ?thesis by blast
  qed
qed

text \<open>C10 at the lines \<open>cpu\<close> and \<open>cpu,1,a\<close>.\<close>

theorem scan_split_precondition_witness:
  "scan_append ''cpu'' reader0 = Inl (IndexOutOfRange, reader0\<lparr>linesRead := 1\<rparr>) \<and>
   (\<exists>st'. scan_append ''cpu,1,a'' reader0 = Inr st' \<and> map_of (batch st') ''cpu'' = Some [''1,a'']) \<and>
   (\<exists>st'. scan insertion_order 2 \<lparr>lines = [''cpu,1,a'', ''cpu''], err = None\<rparr> =
       Inl (IndexOutOfRange, st'))"
proof -
  let ?sc = "\<lparr>lines = [''cpu,1,a'', ''cpu''], err = None\<rparr>"
  note t = scan_split_precondition [of "''cpu''" reader0 "''cpu''" "''1,a''" insertion_order 2 ?sc]
  have a: "CHR '','' \<notin> set ''cpu''" by simp
  have b: "\<exists>l\<in>set (lines ?sc). CHR '','' \<notin> set l" by simp
  from t a have "scan_append ''cpu'' reader0 = Inl (IndexOutOfRange, reader0\<lparr>linesRead := linesRead reader0 + 1\<rparr>)"
    by blast
  then have 1: "scan_append ''cpu'' reader0 = Inl (IndexOutOfRange, reader0\<lparr>linesRead := 1\<rparr>)"
    by (simp add: reader0_def)
  from t a obtain st' where "scan_append (''cpu'' @ CHR '','' # ''1,a'') reader0 = Inr st'"
    "map_of (batch st') = (map_of (batch reader0))(''cpu'' \<mapsto>
        (case map_of (batch reader0) ''cpu'' of None \<Rightarrow> [] | Some rs \<Rightarrow> rs) @ [''1,a''])"
    by blast
  then have 2: "\<exists>st'. scan_append ''cpu,1,a'' reader0 = Inr st' \<and> map_of (batch st') ''cpu'' = Some [''1,a'']"
    by (auto simp: reader0_def)
  from t b have 3: "\<exists>st'. scan insertion_order 2 ?sc = Inl (IndexOutOfRange, st')" by blast
  from 1 2 3 show ?thesis by blast
qed

section \<open>Properties of the Worker\<close>

lemma and_then_Inr: "and_then r f = Inr y \<longleftrightarrow> (\<exists>x. r = Inr x \<and> f x = Inr y)"
  by (cases r) (simp_all add: and_then_def)

lemma and_then_Inl: "and_then r f = Inl e \<longleftrightarrow> r = Inl e \<or> (\<exists>x. r = Inr x \<and> f x = Inl e)"
  by (cases r) (simp_all add: and_then_def)

lemma and_then_simps:
  "and_then (Inl e) f = Inl e" "and_then (Inr x) f = f x"
  by (simp_all add: and_then_def)

lemma db_eq:
  "db drv c st =
     (if drv (calls st @ [c]) then Inr (st\<lparr>calls := calls st @ [c]\<rparr>)
      else Inl (DbError c, st\<lparr>calls := calls st @ [c]\<rparr>))"
  by (simp add: db_def must_def)

lemma Split_not_Nil: "Split l \<noteq> []"
  by (induction l) (auto split: list.splits)

lemma Split_leading: "Split l = leading_field l # tl (Split l)"
  by (induction l) (auto simp: leading_field_def Split_not_Nil split: list.splits)

lemma convert_row_Split:
  "convert_row (Split l) =
     (case ParseInt (leading_field l) of
        None \<Rightarrow> Inl (ParseIntError (leading_field l))
      | Some t \<Rightarrow> Inr (TimeArg (t sdiv 1000000000) (t smod 1000000000) # map TextArg (tl (Split l))))"
  by (subst Split_leading) simp

lemma exec_count_append: "exec_count (xs @ ys) = exec_count xs + exec_count ys"
  by (simp add: exec_count_def)

lemma exec_count_Exec: "exec_count [Exec a] = 1"
  by (simp add: exec_count_def is_Exec_def)

lemma field_total_Cons: "field_total (l # ls) = int (length (Split l)) + field_total ls"
  by (simp add: field_total_def)

lemma field_total_Nil: "field_total [] = 0"
  by (simp add: field_total_def)

text \<open>What the loop over the rows leaves alone, and what it counts.\<close>

lemma copy_rows_Inr:
  "copy_rows drv ls st = Inr st' \<Longrightarrow>
     columnCount st' = columnCount st \<and> rowCount st' = rowCount st \<and>
     taken st' = taken st \<and> at st' = at st \<and>
     columnCountWorker st' = columnCountWorker st + field_total ls \<and>
     exec_count (calls st') = exec_count (calls st) + length ls \<and>
     list_all row_parses ls"
proof (induction ls arbitrary: st)
  case Nil
  then show ?case by (simp add: field_total_Nil)
next
  case (Cons l ls)
  let ?st1 = "st\<lparr>columnCountWorker := columnCountWorker st + int (length (Split l))\<rparr>"
  from Cons.prems obtain args st2 where
    c: "convert_row (Split l) = Inr args" and
    d: "db drv (Exec args) ?st1 = Inr st2" and
    r: "copy_rows drv ls st2 = Inr st'"
    by (auto simp: Let_def and_then_Inr split: sum.splits)
  from c have p: "row_parses l"
    by (auto simp: convert_row_Split row_parses_def split: option.splits)
  from d have st2: "st2 = ?st1\<lparr>calls := calls st @ [Exec args]\<rparr>"
    by (simp add: db_eq split: if_splits)
  from Cons.IH [OF r] show ?case
    by (simp add: st2 p field_total_Cons exec_count_append exec_count_Exec)
qed

lemma copy_rows_Inl:
  "copy_rows drv ls st = Inl (e, st') \<Longrightarrow>
     columnCount st' = columnCount st \<and> rowCount st' = rowCount st \<and>
     taken st' = taken st \<and> at st' = at st \<and>
     e \<noteq> DbError CloseStmt \<and> e \<noteq> DbError Commit"
proof (induction ls arbitrary: st)
  case Nil
  then show ?case by simp
next
  case (Cons l ls)
  let ?st1 = "st\<lparr>columnCountWorker := columnCountWorker st + int (length (Split l))\<rparr>"
  show ?case
  proof (cases "convert_row (Split l)")
    case (Inl e1)
    then have "e1 = ParseIntError (leading_field l)"
      by (auto simp: convert_row_Split split: option.splits)
    with Cons.prems Inl show ?thesis by (auto simp: Let_def)
  next
    case (Inr args)
    show ?thesis
    proof (cases "drv (calls st @ [Exec args])")
      case True
      with Cons.prems Inr have
        "copy_rows drv ls (?st1\<lparr>calls := calls st @ [Exec args]\<rparr>) = Inl (e, st')"
        by (simp add: Let_def db_eq and_then_simps)
      from Cons.IH [OF this] show ?thesis by simp
    next
      case False
      with Cons.prems Inr show ?thesis
        by (auto simp: Let_def db_eq and_then_simps)
    qed
  qed
qed


lemma copy_rows_accepting:
  assumes "\<forall>log. drv log" and "list_all row_parses ls"
  shows "\<exists>st'. copy_rows drv ls st = Inr st'"
  using assms(2)
proof (induction ls arbitrary: st)
  case Nil
  then show ?case by simp
next
  case (Cons l ls)
  from Cons.prems obtain t where "ParseInt (leading_field l) = Some t"
    by (auto simp: row_parses_def)
  then obtain args where "convert_row (Split l) = Inr args"
    by (simp add: convert_row_Split)
  then show ?case using Cons assms(1)
    by (simp add: Let_def db_eq and_then_simps)
qed

text \<open>A turn of the loop of a dry run only counts the batch.\<close>

lemma processBatch_dry:
  "\<not> doLoad opts \<Longrightarrow> processBatch opts drv b st = Inr (st\<lparr>taken := taken st + 1\<rparr>)"
  by (simp add: processBatch_def)

subsection \<open>Claim C2: when the counters are updated\<close>

text \<open>
  C2, as amended. With \<open>doLoad\<close> set, a worker adds the field count and the row count of
  a batch to \<open>columnCount\<close> and \<open>rowCount\<close> after every row of the batch has been parsed
  and executed, and before it closes the statement and commits. So when the turn dies
  of \<open>MustBegin\<close>, \<open>Prepare\<close>, \<open>ParseInt\<close> or \<open>Exec\<close> the two counters are as they were
  before the batch; when it dies of the close of the statement or of the commit they
  already hold the counts of the batch; and when it ends well they hold them, the local
  counter is back at 0, and the last two calls on the connection are the close and the
  commit. (\<open>columnCountWorker\<close> is 0 at the start of every turn.)
\<close>

theorem counters_added_before_commit:
  assumes load: "doLoad opts" and zero: "columnCountWorker st = 0"
  shows "case processBatch opts drv b st of
           Inl (e, st') \<Rightarrow>
             if e = DbError CloseStmt \<or> e = DbError Commit
             then columnCount st' = columnCount st + field_total (rows b) \<and>
                  rowCount st' = rowCount st + int (length (rows b))
             else columnCount st' = columnCount st \<and> rowCount st' = rowCount st
         | Inr st' \<Rightarrow>
             columnCount st' = columnCount st + field_total (rows b) \<and>
             rowCount st' = rowCount st + int (length (rows b)) \<and>
             columnCountWorker st' = 0 \<and>
             (\<exists>log. calls st' = log @ [CloseStmt, Commit])"
proof -
  let ?st = "st\<lparr>taken := taken st + 1\<rparr>"
  let ?st1 = "?st\<lparr>calls := calls st @ [Begin]\<rparr>"
  let ?p = "Prepare (copyCmd (hypertable b))"
  let ?st2 = "?st1\<lparr>calls := calls st @ [Begin, ?p]\<rparr>"
  show ?thesis
  proof (cases "drv (calls st @ [Begin])")
    case False
    then have "processBatch opts drv b st = Inl (DbError Begin, ?st1)"
      by (simp add: processBatch_def load db_eq and_then_simps)
    then show ?thesis by simp
  next
    case b: True
    show ?thesis
    proof (cases "drv (calls st @ [Begin, ?p])")
      case False
      with b have "processBatch opts drv b st = Inl (DbError ?p, ?st2)"
        by (simp add: processBatch_def load db_eq and_then_simps)
      then show ?thesis by simp
    next
      case p: True
      show ?thesis
      proof (cases "copy_rows drv (rows b) ?st2")
        case (Inl x)
        obtain e st' where x: "x = (e, st')" by (cases x)
        from Inl b p have "processBatch opts drv b st = Inl (e, st')"
          by (simp add: processBatch_def load db_eq and_then_simps x)
        moreover from copy_rows_Inl [OF Inl [unfolded x]]
        have "columnCount st' = columnCount st" "rowCount st' = rowCount st"
          "e \<noteq> DbError CloseStmt" "e \<noteq> DbError Commit" by simp_all
        ultimately show ?thesis by simp
      next
        case (Inr st3)
        from copy_rows_Inr [OF Inr] zero
        have c: "columnCount st3 = columnCount st" "rowCount st3 = rowCount st"
          "columnCountWorker st3 = field_total (rows b)" by simp_all
        let ?st4 = "st3\<lparr>columnCount := columnCount st3 + columnCountWorker st3,
                        rowCount := rowCount st3 + int (length (rows b)),
                        columnCountWorker := 0\<rparr>"
        have pb: "processBatch opts drv b st =
                    and_then (db drv CloseStmt ?st4) (\<lambda>st5. db drv Commit st5)"
          using Inr b p by (simp add: processBatch_def load db_eq and_then_simps Let_def)
        show ?thesis
        proof (cases "drv (calls st3 @ [CloseStmt])")
          case False
          then show ?thesis by (simp add: pb db_eq and_then_simps c)
        next
          case cl: True
          show ?thesis
            by (cases "drv (calls st3 @ [CloseStmt, Commit])")
               (simp_all add: pb db_eq and_then_simps c cl)
        qed
      qed
    qed
  qed
qed

text \<open>The definitions a concrete run of a worker unfolds.\<close>

lemmas worker_eval = processBatch_def db_def must_def and_then_def copy_rows.simps Let_def
  copyCmd_def worker0_def default_options_def commit_fails_def accepting_def
  ParseInt_def ParseUint_def digits_value_def is_digit_def
  signed_divide_int_def signed_modulo_int_def field_total_def exec_count_def is_Exec_def
  leading_field_def row_parses_def batches_loop.simps processBatches_def

text \<open>
  C2 as stated fails when the commit fails: the worker below dies of the commit of its
  first batch, of one row with three fields, and the counters are 3 and 1, not 0.
\<close>

theorem commit_failure_counterexample:
  "processBatches default_options commit_fails
     [\<lparr>hypertable = ''cpu'', rows = [''1000000000,host1,0.5'']\<rparr>] worker0 =
   Inl (DbError Commit,
        \<lparr>columnCount = 3, rowCount = 1, columnCountWorker = 0,
         calls = [Connect ''host=postgres user=postgres sslmode=disable dbname=benchmark'',
                  Begin, Prepare (copyCmd ''cpu''),
                  Exec [TimeArg 1 0, TextArg ''host1'', TextArg ''0.5''], CloseStmt, Commit],
         taken = 1, at = Ranging\<rparr>)"
  by (simp add: worker_eval)

text \<open>C2 at a batch of two rows of three fields that the database accepts.\<close>

theorem counters_added_before_commit_witness:
  "doLoad default_options \<and> columnCountWorker worker0 = 0 \<and>
   (\<exists>st'. processBatch default_options accepting
            \<lparr>hypertable = ''cpu'', rows = [''1000000000,host1,0.5'', ''2000000000,host1,0.6'']\<rparr>
            worker0 = Inr st' \<and>
          columnCount st' = 6 \<and> rowCount st' = 2)"
proof -
  let ?b = "\<lparr>hypertable = ''cpu'', rows = [''1000000000,host1,0.5'', ''2000000000,host1,0.6'']\<rparr>"
  have h1: "doLoad default_options" by (simp add: default_options_def)
  have h2: "columnCountWorker worker0 = 0" by (simp add: worker0_def)
  have ev: "\<exists>st'. processBatch default_options accepting ?b worker0 = Inr st'"
    by (simp add: worker_eval)
  then obtain st' where r: "processBatch default_options accepting ?b worker0 = Inr st'" ..
  from counters_added_before_commit [OF h1 h2, where drv = accepting and b = ?b] r
  have "columnCount st' = columnCount worker0 + field_total (rows ?b)"
       "rowCount st' = rowCount worker0 + int (length (rows ?b))" by simp_all
  then have "columnCount st' = 6" "rowCount st' = 2"
    by (simp_all add: worker0_def field_total_def)
  with r h1 h2 show ?thesis by blast
qed


subsection \<open>Claim C5: a row whose time does not parse\<close>



text \<open>A dry run takes every batch and leaves the counters and the database alone.\<close>

lemma batches_loop_dry:
  "\<not> doLoad opts \<Longrightarrow> batches_loop opts drv bs st = Inr (st\<lparr>taken := taken st + length bs\<rparr>)"
  by (induction bs arbitrary: st) (simp_all add: processBatch_dry and_then_simps)

lemma processBatch_taken:
  "processBatch opts drv b st = Inr st' \<Longrightarrow> taken st' = taken st + 1"
  by (auto simp: processBatch_def Let_def and_then_Inr db_eq dest!: copy_rows_Inr
      split: if_splits)

lemma batches_loop_taken:
  "batches_loop opts drv bs st = Inr st' \<Longrightarrow> taken st' = taken st + length bs"
proof (induction bs arbitrary: st)
  case Nil
  then show ?case by simp
next
  case (Cons b bs)
  then obtain st1 where "processBatch opts drv b st = Inr st1" "batches_loop opts drv bs st1 = Inr st'"
    by (auto simp: and_then_Inr)
  then show ?case using Cons.IH [of st1] processBatch_taken [of opts drv b st st1] by simp
qed

lemma processBatch_accepting:
  assumes "\<forall>log. drv log" and "list_all row_parses (rows b)"
  shows "\<exists>st'. processBatch opts drv b st = Inr st'"
proof (cases "doLoad opts")
  case False
  then show ?thesis by (simp add: processBatch_dry)
next
  case True
  let ?st2 = "st\<lparr>taken := taken st + 1,
                 calls := calls st @ [Begin, Prepare (copyCmd (hypertable b))]\<rparr>"
  from copy_rows_accepting [OF assms, of ?st2] obtain st3 where
    "copy_rows drv (rows b) ?st2 = Inr st3" ..
  then show ?thesis
    using assms(1) True by (simp add: processBatch_def Let_def and_then_simps db_eq)
qed

lemma batches_loop_accepting:
  assumes "\<forall>log. drv log" and "list_all (\<lambda>b. list_all row_parses (rows b)) bs"
  shows "\<exists>st'. batches_loop opts drv bs st = Inr st'"
  using assms(2)
proof (induction bs arbitrary: st)
  case Nil
  then show ?case by simp
next
  case (Cons b bs)
  then obtain st1 where "processBatch opts drv b st = Inr st1"
    using processBatch_accepting [OF assms(1), of b opts st] by auto
  then show ?case using Cons by (simp add: and_then_simps)
qed

text \<open>
  With \<open>doLoad\<close> unset, a worker that gets its connection takes every batch it is
  given and returns; \<open>columnCount\<close> and \<open>rowCount\<close> are what they were, and the only call
  on its connection is the connect. With \<open>doLoad\<close> set, on the same batches, a worker
  that returns has taken the same number of batches; and it does return when the
  database fails nowhere and every row parses.
\<close>

lemma dry_worker_takes_all:
  assumes dry: "\<not> doLoad opts"
    and conn: "drv (calls st @ [Connect (postgresConnect opts @ '' dbname=benchmark'')])"
  shows "\<exists>st'. processBatches opts drv bs st = Inr st' \<and>
           taken st' = taken st + length bs \<and> at st' = Returned \<and>
           columnCount st' = columnCount st \<and> rowCount st' = rowCount st \<and>
           calls st' = calls st @ [Connect (postgresConnect opts @ '' dbname=benchmark'')] \<and>
           (\<forall>st''. processBatches (opts\<lparr>doLoad := True\<rparr>) drv bs st = Inr st''
                   \<longrightarrow> taken st'' = taken st') \<and>
           ((\<forall>log. drv log) \<and> list_all (\<lambda>b. list_all row_parses (rows b)) bs
              \<longrightarrow> (\<exists>st''. processBatches (opts\<lparr>doLoad := True\<rparr>) drv bs st = Inr st''))"
proof -
  let ?c = "Connect (postgresConnect opts @ '' dbname=benchmark'')"
  let ?st1 = "st\<lparr>calls := calls st @ [?c], at := Ranging\<rparr>"
  let ?st' = "?st1\<lparr>taken := taken st + length bs, at := Returned\<rparr>"
  have r: "processBatches opts drv bs st = Inr ?st'"
    using conn by (simp add: processBatches_def db_eq and_then_simps batches_loop_dry [OF dry])
  have same: "taken st'' = taken st + length bs"
    if "processBatches (opts\<lparr>doLoad := True\<rparr>) drv bs st = Inr st''" for st''
  proof -
    from that conn obtain st2 where
      "batches_loop (opts\<lparr>doLoad := True\<rparr>) drv bs ?st1 = Inr st2" "st'' = st2\<lparr>at := Returned\<rparr>"
      by (auto simp: processBatches_def db_eq and_then_simps and_then_Inr)
    then show ?thesis using batches_loop_taken [of _ drv bs ?st1 st2] by simp
  qed
  have ex: "\<exists>st''. processBatches (opts\<lparr>doLoad := True\<rparr>) drv bs st = Inr st''"
    if "(\<forall>log. drv log) \<and> list_all (\<lambda>b. list_all row_parses (rows b)) bs"
  proof -
    from that batches_loop_accepting [of drv bs "opts\<lparr>doLoad := True\<rparr>" ?st1]
    obtain st2 where "batches_loop (opts\<lparr>doLoad := True\<rparr>) drv bs ?st1 = Inr st2" by blast
    then show ?thesis using conn by (simp add: processBatches_def db_eq and_then_simps)
  qed
  show ?thesis using r same ex by simp
qed

section \<open>Properties of the Reporter and of the Schema Initializer\<close>

text \<open>The loop of \<open>report\<close>, from the state a tick \<open>p\<close> leaves.\<close>

lemma report_loop_eq:
  "report_loop ts \<lparr>start = now0, prevTime = tick_now p, prevColCount = tick_colCount p,
                   prevRowCount = tick_rowCount p\<rparr> =
     map (\<lambda>(p, t). line_of now0 p t) (zip (p # ts) ts)"
proof (induction ts arbitrary: p)
  case Nil
  then show ?case by simp
next
  case (Cons t ts)
  show ?case using Cons.IH [of t] by (simp add: Let_def line_of_def)
qed

subsection \<open>Claim C3: what a report holds\<close>

text \<open>
  C3, as amended. For a positive period, \<open>report\<close> prints one line per tick. The line
  of a tick holds the rate of the column count and the rate of the row count over the
  time since the tick before (since the start, and from 0, at the first tick), the
  rate of the row count over the time since the start, and the row count. It holds no
  rate of the column count since the start. For a period that is not positive it prints
  nothing.
\<close>

theorem report_emits:
  "report periodMs now0 ticks =
     (if periodMs \<le> 0 then []
      else map (\<lambda>(p, t). line_of now0 p t)
             (zip (\<lparr>tick_now = now0, tick_colCount = 0, tick_rowCount = 0\<rparr> # ticks) ticks))"
  using report_loop_eq [where ?now0.0 = now0 and ts = ticks
      and p = "\<lparr>tick_now = now0, tick_colCount = 0, tick_rowCount = 0\<rparr>"]
  by (simp add: report_def)

text \<open>
  C3 as stated fails: at the second tick below, 30 columns after 2 seconds, the line
  holds the rates 20 per second (columns, period), 3 per second (rows, period) and
  5 rows per 2 seconds (rows, overall), and no rate of 30 columns per 2 seconds.
\<close>

theorem report_no_overall_column_rate_counterexample:
  "report 1000 0 [\<lparr>tick_now = 1000000000, tick_colCount = 10, tick_rowCount = 2\<rparr>,
                  \<lparr>tick_now = 2000000000, tick_colCount = 30, tick_rowCount = 5\<rparr>] =
     [\<lparr>line_time = 1, line_colrate = Rate 10 1000000000, line_rowrate = Rate 2 1000000000,
       line_overallRowrate = Rate 2 1000000000, line_totalRows = 2\<rparr>,
      \<lparr>line_time = 2, line_colrate = Rate 20 1000000000, line_rowrate = Rate 3 1000000000,
       line_overallRowrate = Rate 5 2000000000, line_totalRows = 5\<rparr>] \<and>
   Rate 30 2000000000 \<notin> set (rates_of
     \<lparr>line_time = 2, line_colrate = Rate 20 1000000000, line_rowrate = Rate 3 1000000000,
      line_overallRowrate = Rate 5 2000000000, line_totalRows = 5\<rparr>)"
  by (simp add: report_def Let_def rates_of_def)

text \<open>A database that fails nowhere executes every statement.\<close>

lemma must_all_accepting: "\<forall>log. drv log \<Longrightarrow> must_all drv cs log = Inr (log @ cs)"
  by (induction cs arbitrary: log) (simp_all add: must_def and_then_simps)

text \<open>The definitions a concrete header unfolds.\<close>

lemmas init_eval = fields_loop.simps index_loop.simps and_then_def Let_def table_calls_def
  header_loop.simps initBenchmarkDB_def

subsection \<open>Claim C7: the indexes of the header cpu,host,usage\<close>

text \<open>
  C7. With the tag index policy \<open>VALUE-TIME\<close>, the field index policy \<open>TIME-VALUE\<close> and
  indexes on all fields (\<open>fieldIndexCount\<close> at its default -1, or at least 1), the header
  line \<open>cpu,host,usage\<close> gives the two index statements \<open>(host,time)\<close> and
  \<open>(time, usage)\<close>, one for the tag and one for the measurement, and no other. With an
  empty line after it and a database that fails nowhere, \<open>initBenchmarkDB\<close> returns, the
  data lines left to read, after the table, these two indexes and the hypertable.
\<close>

theorem header_cpu_host_usage:
  assumes tag: "tagIndex opts = ''VALUE-TIME''"
    and field: "fieldIndex opts = ''TIME-VALUE''"
    and cnt: "fieldIndexCount opts = - 1 \<or> 1 \<le> fieldIndexCount opts"
    and drv: "\<forall>log. drv log"
  shows "fields_loop opts ''cpu'' 0 [''host'', ''usage'']
           \<lparr>partitioningField = [], fieldDef = [], indexes = []\<rparr> =
         Inr \<lparr>partitioningField = ''host'',
              fieldDef = [''host TEXT'', ''usage DOUBLE PRECISION''],
              indexes = [''CREATE INDEX ON cpu (host,time)'',
                         ''CREATE INDEX ON cpu (time, usage)'']\<rparr> \<and>
         initBenchmarkDB opts drv (''cpu,host,usage'' # [] # rest) =
         Inr (rest,
              setup_calls opts @
              [MustExec ''CREATE TABLE cpu (time timestamptz, host TEXT,usage DOUBLE PRECISION)'',
               MustExec ''CREATE INDEX ON cpu (host,time)'',
               MustExec ''CREATE INDEX ON cpu (time, usage)''] @
              (if makeHypertable opts
               then [CreateHypertable ''cpu'' ''host'' (numberPartitions opts)] else []))"
proof -
  have f: "fields_loop opts ''cpu'' 0 [''host'', ''usage'']
           \<lparr>partitioningField = [], fieldDef = [], indexes = []\<rparr> =
         Inr \<lparr>partitioningField = ''host'',
              fieldDef = [''host TEXT'', ''usage DOUBLE PRECISION''],
              indexes = [''CREATE INDEX ON cpu (host,time)'',
                         ''CREATE INDEX ON cpu (time, usage)'']\<rparr>"
    using cnt by (auto simp: tag field init_eval)
  have s: "Split ''cpu,host,usage'' = [''cpu'', ''host'', ''usage'']" by simp
  have "initBenchmarkDB opts drv (''cpu,host,usage'' # [] # rest) =
          header_loop opts drv (''cpu,host,usage'' # [] # rest) (setup_calls opts)"
    by (simp add: initBenchmarkDB_def must_all_accepting [OF drv] and_then_simps)
  also have "\<dots> = Inr (rest,
              setup_calls opts @
              [MustExec ''CREATE TABLE cpu (time timestamptz, host TEXT,usage DOUBLE PRECISION)'',
               MustExec ''CREATE INDEX ON cpu (host,time)'',
               MustExec ''CREATE INDEX ON cpu (time, usage)''] @
              (if makeHypertable opts
               then [CreateHypertable ''cpu'' ''host'' (numberPartitions opts)] else []))"
    by (simp add: s f must_all_accepting [OF drv] and_then_simps table_calls_def del: Split.simps fields_loop.simps must_all.simps)
  finally show ?thesis using f by simp
qed

text \<open>C7 at the default options with the tag index policy \<open>VALUE-TIME\<close>.\<close>

theorem header_cpu_host_usage_witness:
  "tagIndex (default_options\<lparr>tagIndex := ''VALUE-TIME''\<rparr>) = ''VALUE-TIME'' \<and>
   fieldIndex (default_options\<lparr>tagIndex := ''VALUE-TIME''\<rparr>) = ''TIME-VALUE'' \<and>
   fieldIndexCount (default_options\<lparr>tagIndex := ''VALUE-TIME''\<rparr>) = - 1 \<and>
   initBenchmarkDB (default_options\<lparr>tagIndex := ''VALUE-TIME''\<rparr>) accepting
     [''cpu,host,usage'', [], ''cpu,1000000000,host1,0.5''] =
   Inr ([''cpu,1000000000,host1,0.5''],
        [Connect ''host=postgres user=postgres sslmode=disable'',
         MustExec ''DROP DATABASE IF EXISTS benchmark'',
         MustExec ''CREATE DATABASE benchmark'',
         Connect ''host=postgres user=postgres sslmode=disable dbname=benchmark'',
         MustExec ''CREATE EXTENSION IF NOT EXISTS timescaledb CASCADE'',
         MustExec ''SELECT setup_timescaledb()'',
         MustExec ''CREATE TABLE cpu (time timestamptz, host TEXT,usage DOUBLE PRECISION)'',
         MustExec ''CREATE INDEX ON cpu (host,time)'',
         MustExec ''CREATE INDEX ON cpu (time, usage)'',
         CreateHypertable ''cpu'' ''host'' 1])"
proof -
  let ?o = "default_options\<lparr>tagIndex := ''VALUE-TIME''\<rparr>"
  have h1: "tagIndex ?o = ''VALUE-TIME''" by simp
  have h2: "fieldIndex ?o = ''TIME-VALUE''" by (simp add: default_options_def)
  have h3: "fieldIndexCount ?o = - 1 \<or> 1 \<le> fieldIndexCount ?o" by (simp add: default_options_def)
  have h4: "\<forall>log. accepting log" by (simp add: accepting_def)
  from header_cpu_host_usage [OF h1 h2 h3 h4, of "[''cpu,1000000000,host1,0.5'']"]
  show ?thesis by (simp add: default_options_def setup_calls_def)
qed

section \<open>Properties of the run\<close>

text \<open>What a turn of the loop of a worker does to its place and its count of batches.\<close>

lemma processBatch_at_taken:
  "processBatch opts drv b w = Inr w' \<or> processBatch opts drv b w = Inl (e, w') \<Longrightarrow>
     at w' = at w \<and> taken w' = taken w + 1"
proof (cases "doLoad opts")
  case False
  assume "processBatch opts drv b w = Inr w' \<or> processBatch opts drv b w = Inl (e, w')"
  with False show ?thesis by (auto simp: processBatch_dry)
next
  case True
  assume r: "processBatch opts drv b w = Inr w' \<or> processBatch opts drv b w = Inl (e, w')"
  let ?p = "Prepare (copyCmd (hypertable b))"
  let ?w2 = "w\<lparr>taken := taken w + 1, calls := calls w @ [Begin, ?p]\<rparr>"
  show ?thesis
  proof (cases "drv (calls w @ [Begin]) \<and> drv (calls w @ [Begin, ?p])")
    case False
    with r True show ?thesis
      by (cases "drv (calls w @ [Begin])")
         (auto simp: processBatch_def db_eq and_then_simps Let_def)
  next
    case ok: True
    show ?thesis
    proof (cases "copy_rows drv (rows b) ?w2")
      case (Inl x)
      obtain e1 w1 where x: "x = (e1, w1)" by (cases x)
      from copy_rows_Inl [OF Inl [unfolded x]] have "at w1 = at w" "taken w1 = taken w + 1"
        by simp_all
      moreover from Inl ok True have "processBatch opts drv b w = Inl (e1, w1)"
        by (simp add: processBatch_def db_eq and_then_simps x)
      ultimately show ?thesis using r by auto
    next
      case (Inr w3)
      from copy_rows_Inr [OF Inr] have k: "at w3 = at w" "taken w3 = taken w + 1" by simp_all
      let ?w4 = "w3\<lparr>columnCount := columnCount w3 + columnCountWorker w3,
                     rowCount := rowCount w3 + int (length (rows b)),
                     columnCountWorker := 0\<rparr>"
      have pb: "processBatch opts drv b w =
                  and_then (db drv CloseStmt ?w4) (\<lambda>st5. db drv Commit st5)"
        using Inr ok True by (simp add: processBatch_def db_eq and_then_simps Let_def)
      show ?thesis using r k unfolding pb
        by (auto simp: db_eq and_then_simps split: if_splits)
    qed
  qed
qed

text \<open>The workers that have not returned, counted.\<close>

lemma running_replicate: "running (replicate k worker0) = k"
  by (simp add: running_def worker0_def)

lemma running_update:
  assumes "i < length ws"
  shows "int (running (ws[i := w])) =
           int (running ws) - (if at (ws ! i) \<noteq> Returned then 1 else 0)
                            + (if at w \<noteq> Returned then 1 else 0)"
  using assms
proof (induction ws arbitrary: i)
  case Nil
  then show ?case by simp
next
  case (Cons a ws)
  show ?case
  proof (cases i)
    case 0
    then show ?thesis by (simp add: running_def)
  next
    case (Suc j)
    with Cons.prems have "j < length ws" by simp
    from Cons.IH [OF this] show ?thesis
      by (cases "at (ws ! j) = Returned"; cases "at w = Returned"; cases "at a = Returned")
         (simp_all add: Suc running_def)
  qed
qed

lemma set_update_cases:
  "x \<in> set (ws[i := w]) \<Longrightarrow> x = w \<or> x \<in> set ws"
  by (meson in_set_conv_nth insertE set_update_subset_insert subsetD)

text \<open>The invariant holds when the goroutines start, and every step keeps it.\<close>

lemma run_inv_spawn: "0 \<le> workers opts \<Longrightarrow> run_inv (spawn opts order sc)"
proof -
  have "at worker0 \<noteq> Returned" by (simp add: worker0_def)
  then show "0 \<le> workers opts \<Longrightarrow> run_inv (spawn opts order sc)"
    by (simp add: run_inv_def spawn_def Let_def running_replicate)
qed

lemma main_step_inv:
  assumes "run_inv s"
  shows "run_inv (main_step opts s)"
proof (cases "main_at s")
  case Scanning
  with assms show ?thesis
    by (auto simp: main_step_def run_inv_def split: list.splits option.splits)
next
  case AwaitInputDone
  with assms show ?thesis by (auto simp: main_step_def run_inv_def)
next
  case CloseBatchChan
  with assms show ?thesis by (auto simp: main_step_def run_inv_def)
next
  case WaitWorkers
  with assms show ?thesis by (auto simp: main_step_def run_inv_def)
next
  case Finished
  with assms show ?thesis by (simp add: main_step_def)
qed

text \<open>A worker that stays in its loop, or gets there, keeps the invariant, whatever it
  does to the counters and to a buffer that no worker has returned from.\<close>

lemma pool_update_inv:
  assumes inv: "run_inv s" and i: "i < length (pool s)"
    and old: "at (pool s ! i) \<noteq> Returned" and new: "at w \<noteq> Returned"
    and s': "main_at s' = main_at s" "signalled s' = signalled s" "outbox s' = outbox s"
            "closed s' = closed s" "waitgroup s' = waitgroup s"
            "pool s' = (pool s)[i := w]"
    and buf: "buffer s = [] \<Longrightarrow> buffer s' = []"
  shows "run_inv s'"
proof -
  have ret: "closed s' \<and> buffer s' = []" if "x \<in> set (pool s')" "at x = Returned" for x
  proof -
    from that new have "x \<in> set (pool s)"
      using set_update_cases [of x "pool s" i w] by (auto simp: s')
    with inv that(2) have "closed s \<and> buffer s = []" by (auto simp: run_inv_def)
    then show ?thesis using buf by (simp add: s')
  qed
  have "int (running (pool s')) = int (running (pool s))"
    using running_update [OF i, of w] old new by (simp add: s')
  with inv ret show ?thesis by (auto simp: run_inv_def s')
qed

lemma worker_step_inv:
  assumes inv: "run_inv s"
  shows "run_inv (worker_step opts drv i s)"
proof (cases "i < length (pool s)")
  case False
  then show ?thesis using inv by (simp add: worker_step_def)
next
  case i: True
  let ?w = "load_globals s (pool s ! i)"
  have atw: "at ?w = at (pool s ! i)" by (simp add: load_globals_def)
  show ?thesis
  proof (cases "at (pool s ! i)")
    case Connecting
    let ?c = "Connect (postgresConnect opts @ '' dbname=benchmark'')"
    show ?thesis
    proof (cases "drv i (calls ?w @ [?c])")
      case True
      then have "worker_step opts drv i s =
                   store_worker i (?w\<lparr>calls := calls ?w @ [?c], at := Ranging\<rparr>) s"
        using i Connecting atw by (simp add: worker_step_def db_eq Let_def)
      then show ?thesis using Connecting
        by (intro pool_update_inv [OF inv i, of "?w\<lparr>calls := calls ?w @ [?c], at := Ranging\<rparr>"])
           (simp_all add: store_worker_def)
    next
      case False
      then have "worker_step opts drv i s =
                   (store_worker i (?w\<lparr>calls := calls ?w @ [?c]\<rparr>) s)\<lparr>crashed := Some (DbError ?c)\<rparr>"
        using i Connecting atw by (simp add: worker_step_def db_eq Let_def)
      then show ?thesis using Connecting atw
        by (intro pool_update_inv [OF inv i, of "?w\<lparr>calls := calls ?w @ [?c]\<rparr>"])
           (simp_all add: store_worker_def)
    qed
  next
    case Ranging
    show ?thesis
    proof (cases "buffer s")
      case (Cons b bs)
      have nobody: "buffer s = [] \<Longrightarrow> P" for P using Cons by simp
      show ?thesis
      proof (cases "processBatch opts (drv i) b ?w")
        case (Inl x)
        obtain e w' where x: "x = (e, w')" by (cases x)
        from processBatch_at_taken [of opts "drv i" b ?w w' e] Inl x
        have w': "at w' = Ranging" using atw Ranging by simp
        have "worker_step opts drv i s =
                (store_worker i w' s)\<lparr>buffer := bs, crashed := Some e\<rparr>"
          using i Ranging atw Cons Inl x by (simp add: worker_step_def Let_def)
        then show ?thesis using Ranging w' Cons
          by (intro pool_update_inv [OF inv i, of w']) (simp_all add: store_worker_def)
      next
        case (Inr w')
        from processBatch_at_taken [of opts "drv i" b ?w w'] Inr
        have w': "at w' = Ranging" using atw Ranging by simp
        have "worker_step opts drv i s = (store_worker i w' s)\<lparr>buffer := bs\<rparr>"
          using i Ranging atw Cons Inr by (simp add: worker_step_def Let_def)
        then show ?thesis using Ranging w' Cons
          by (intro pool_update_inv [OF inv i, of w']) (simp_all add: store_worker_def)
      qed
    next
      case Nil
      show ?thesis
      proof (cases "closed s")
        case False
        then show ?thesis using inv i Ranging atw Nil by (simp add: worker_step_def Let_def)
      next
        case True
        let ?w' = "?w\<lparr>at := Returned\<rparr>"
        let ?s' = "(store_worker i ?w' s)\<lparr>waitgroup := waitgroup s - 1\<rparr>"
        have ws: "worker_step opts drv i s = ?s'"
          using i Ranging atw Nil True by (simp add: worker_step_def Let_def)
        have r: "int (running (pool ?s')) = int (running (pool s)) - 1"
          using running_update [OF i, of ?w'] Ranging by (simp add: store_worker_def)
        then have pos: "1 \<le> int (running (pool s))" by linarith
        have ret: "closed ?s' \<and> buffer ?s' = []" if "x \<in> set (pool ?s')" for x
          using True Nil by (simp add: store_worker_def)
        from inv pos have "main_at s \<noteq> Finished" by (auto simp: run_inv_def)
        with inv r ret show ?thesis unfolding ws
          by (simp add: run_inv_def store_worker_def)
      qed
    qed
  next
    case Returned
    then show ?thesis using inv i atw by (simp add: worker_step_def Let_def)
  qed
qed

lemma step_inv: "run_inv s \<Longrightarrow> run_inv (step opts drv s g)"
  by (cases g) (simp_all add: step_def main_step_inv worker_step_inv)

lemma run_inv_run: "run_inv s \<Longrightarrow> run_inv (run opts drv sched s)"
  unfolding run_def by (induction sched arbitrary: s) (simp_all add: step_inv)

text \<open>No batch is lost between \<open>scan\<close> and the workers: a batch is still to be sent, or in
  the buffer, or taken by a worker.\<close>

lemma taken_total_update:
  "i < length ws \<Longrightarrow>
     sum_list (map taken (ws[i := w])) + taken (ws ! i) = sum_list (map taken ws) + taken w"
proof (induction ws arbitrary: i)
  case Nil
  then show ?case by simp
next
  case (Cons a ws)
  then show ?case by (cases i) (simp_all add: add.assoc [symmetric])
qed

lemma main_step_in_flight: "in_flight (main_step opts s) = in_flight s"
  by (cases "main_at s")
     (auto simp: main_step_def in_flight_def taken_total_def split: list.splits option.splits)

lemma worker_step_in_flight: "in_flight (worker_step opts drv i s) = in_flight s"
proof (cases "i < length (pool s)")
  case False
  then show ?thesis by (simp add: worker_step_def)
next
  case i: True
  let ?w = "load_globals s (pool s ! i)"
  have tw: "taken ?w = taken (pool s ! i)" by (simp add: load_globals_def)
  have upd: "sum_list (map taken ((pool s)[i := w'])) + taken ?w = taken_total s + taken w'" for w'
    using taken_total_update [OF i, of w'] by (simp add: tw taken_total_def)
  show ?thesis
  proof (cases "at ?w")
    case Connecting
    let ?c = "Connect (postgresConnect opts @ '' dbname=benchmark'')"
    show ?thesis
      using i Connecting upd [of "?w\<lparr>calls := calls ?w @ [?c], at := Ranging\<rparr>"]
        upd [of "?w\<lparr>calls := calls ?w @ [?c]\<rparr>"]
      by (cases "drv i (calls ?w @ [?c])")
         (simp_all add: worker_step_def Let_def db_eq in_flight_def taken_total_def
            store_worker_def)
  next
    case Ranging
    show ?thesis
    proof (cases "buffer s")
      case Nil
      then show ?thesis using i Ranging upd [of "?w\<lparr>at := Returned\<rparr>"]
        by (simp add: worker_step_def Let_def in_flight_def taken_total_def store_worker_def)
    next
      case (Cons b bs)
      show ?thesis
      proof (cases "processBatch opts (drv i) b ?w")
        case (Inl x)
        obtain e w' where x: "x = (e, w')" by (cases x)
        from processBatch_at_taken [of opts "drv i" b ?w w' e] Inl x
        have "taken w' = taken ?w + 1" by simp
        then show ?thesis using i Ranging Cons Inl x upd [of w']
          by (simp add: worker_step_def Let_def in_flight_def taken_total_def store_worker_def)
      next
        case (Inr w')
        from processBatch_at_taken [of opts "drv i" b ?w w'] Inr
        have "taken w' = taken ?w + 1" by simp
        then show ?thesis using i Ranging Cons Inr upd [of w']
          by (simp add: worker_step_def Let_def in_flight_def taken_total_def store_worker_def)
      qed
    qed
  next
    case Returned
    then show ?thesis using i by (simp add: worker_step_def Let_def)
  qed
qed

lemma run_in_flight: "in_flight (run opts drv sched s) = in_flight s"
  unfolding run_def
proof (induction sched arbitrary: s)
  case Nil
  then show ?case by simp
next
  case (Cons g sched)
  have "in_flight (step opts drv s g) = in_flight s"
    by (cases g) (simp_all add: step_def main_step_in_flight worker_step_in_flight)
  with Cons.IH [of "step opts drv s g"] show ?case by simp
qed

text \<open>The buffer never holds more batches than \<open>batchChan\<close> has room for, and the pool stays
  as long as it is.\<close>

lemma step_bound:
  assumes "int (length (buffer s)) \<le> workers opts \<and> length (pool s) = k"
  shows "int (length (buffer (step opts drv s g))) \<le> workers opts \<and>
         length (pool (step opts drv s g)) = k"
proof (cases g)
  case Main
  with assms show ?thesis
    by (cases "main_at s")
       (auto simp: step_def main_step_def split: list.splits option.splits)
next
  case (Worker i)
  with assms show ?thesis
    by (auto simp: step_def worker_step_def Let_def store_worker_def
             split: worker_pc.splits sum.splits list.splits)
qed

lemma run_bound:
  "int (length (buffer s)) \<le> workers opts \<and> length (pool s) = k \<Longrightarrow>
     int (length (buffer (run opts drv sched s))) \<le> workers opts \<and>
     length (pool (run opts drv sched s)) = k"
  unfolding run_def
proof (induction sched arbitrary: s)
  case Nil
  then show ?case by simp
next
  case (Cons g sched)
  from Cons.IH [OF step_bound [OF Cons.prems]] show ?case by simp
qed

lemma running_zero: "running ws = 0 \<Longrightarrow> w \<in> set ws \<Longrightarrow> at w = Returned"
  by (induction ws) (auto simp: running_def split: if_splits)

text \<open>The schema initializer leaves the lines that the loop of \<open>main\<close> over the header
  leaves.\<close>

lemma header_loop_rest:
  "header_loop opts drv ls log = Inr (rest, log') \<Longrightarrow> rest = skip_header ls"
proof (induction ls arbitrary: log)
  case Nil
  then show ?case by simp
next
  case (Cons l ls)
  show ?case
  proof (cases "length l = 0")
    case True
    with Cons.prems show ?thesis by simp
  next
    case False
    with Cons.prems obtain log1 where "header_loop opts drv ls log1 = Inr (rest, log')"
      by (auto simp: Let_def and_then_Inr split: sum.splits)
    from Cons.IH [OF this] False show ?thesis by simp
  qed
qed

lemma initBenchmarkDB_rest:
  "initBenchmarkDB opts drv ls = Inr (rest, log) \<Longrightarrow> rest = skip_header ls"
  by (auto simp: initBenchmarkDB_def and_then_Inr dest: header_loop_rest)

lemma main_Ran:
  "main opts idrv drv order sc sched = Ran s \<Longrightarrow>
     0 \<le> workers opts \<and>
     s = run opts drv sched (spawn opts order (sc\<lparr>lines := skip_header (lines sc)\<rparr>))"
  by (auto simp: main_def split: if_splits sum.splits dest: initBenchmarkDB_rest)







lemma taken_total_replicate: "sum_list (map taken (replicate k worker0)) = 0"
  by (induction k) (simp_all add: worker0_def)


text \<open>What holds of every state a run of \<open>main\<close> reaches.\<close>

lemma main_Ran_facts:
  assumes "main opts idrv drv order sc sched = Ran s"
  shows "run_inv s"
    and "main_at s = Finished \<Longrightarrow>
           closed s \<and> buffer s = [] \<and> outbox s = [] \<and> (\<forall>w\<in>set (pool s). at w = Returned)"
    and "in_flight s = length (batchChan (final_reader
           (scan order (batchSize opts) (sc\<lparr>lines := skip_header (lines sc)\<rparr>))))"
proof -
  let ?s0 = "spawn opts order (sc\<lparr>lines := skip_header (lines sc)\<rparr>)"
  from main_Ran [OF assms] have w: "0 \<le> workers opts" and s: "s = run opts drv sched ?s0"
    by simp_all
  show inv: "run_inv s" unfolding s by (intro run_inv_run run_inv_spawn w)
  have "int (length (buffer ?s0)) \<le> workers opts \<and> length (pool ?s0) = nat (workers opts)"
    using w by (simp add: spawn_def Let_def)
  from run_bound [OF this, of drv sched]
  have b: "int (length (buffer s)) \<le> workers opts" "length (pool s) = nat (workers opts)"
    by (simp_all add: s)
  show "closed s \<and> buffer s = [] \<and> outbox s = [] \<and> (\<forall>w\<in>set (pool s). at w = Returned)"
    if f: "main_at s = Finished"
  proof -
    from inv f have z: "running (pool s) = 0" and c: "closed s" and o: "outbox s = []"
      by (auto simp: run_inv_def)
    then have all: "\<forall>w\<in>set (pool s). at w = Returned" using running_zero by blast
    have "buffer s = []"
    proof (cases "pool s")
      case Nil
      with b(2) have "workers opts \<le> 0" by simp
      with b(1) have "int (length (buffer s)) \<le> 0" by linarith
      then show ?thesis by simp
    next
      case (Cons a ws)
      then have "a \<in> set (pool s)" by simp
      with all inv show ?thesis by (auto simp: run_inv_def)
    qed
    with c o all show ?thesis by simp
  qed
  have "in_flight s = in_flight ?s0" unfolding s by (rule run_in_flight)
  also have "\<dots> = length (batchChan (final_reader
           (scan order (batchSize opts) (sc\<lparr>lines := skip_header (lines sc)\<rparr>))))"
    by (simp add: in_flight_def taken_total_def spawn_def Let_def worker0_def)
  finally show "in_flight s = length (batchChan (final_reader
           (scan order (batchSize opts) (sc\<lparr>lines := skip_header (lines sc)\<rparr>))))" .
qed

subsection \<open>Claim C6: the order of the shutdown\<close>

text \<open>
  C6. In every state that a run of \<open>main\<close> reaches, under every schedule of the
  goroutines: if \<open>inputDone\<close> is closed, \<open>scan\<close> has sent all its batches; if \<open>batchChan\<close> is
  closed, \<open>inputDone\<close> is closed; a worker that has called \<open>workersGroup.Done()\<close> and
  returned has seen \<open>batchChan\<close> closed and empty, and it stays so; and when
  \<open>workersGroup.Wait()\<close> has returned in \<open>main\<close>, \<open>batchChan\<close> is closed and empty and every
  worker has returned.
\<close>

theorem shutdown_order:
  assumes "main opts idrv drv order sc sched = Ran s"
  shows "(signalled s \<longrightarrow> outbox s = []) \<and>
         (closed s \<longrightarrow> signalled s) \<and>
         (\<forall>w\<in>set (pool s). at w = Returned \<longrightarrow> closed s \<and> buffer s = []) \<and>
         (main_at s = Finished \<longrightarrow>
            closed s \<and> buffer s = [] \<and> (\<forall>w\<in>set (pool s). at w = Returned))"
  using main_Ran_facts(1,2) [OF assms] by (auto simp: run_inv_def)

















subsection \<open>Claim C9: the dry run\<close>


section \<open>Unknown index types, and the runs that witness the claims\<close>











subsection \<open>Claim C8: an index type that is not known\<close>



text \<open>The loading run of \<open>input1\<close> under \<open>sched1\<close> comes to its end.\<close>

lemma ev_load:
  "case main (default_options\<lparr>batchSize := 1\<rparr>) accepting all_accepting insertion_order
          input1 sched1 of
     Aborted e log \<Rightarrow> False
   | Ran s \<Rightarrow> main_at s = Finished \<and> rowsRead s = 2 \<and> taken_total s = 2 \<and>
              globals s = \<lparr>columnCount = 6, rowCount = 2\<rparr>"
  by code_simp

text \<open>C6 at the loading run.\<close>

theorem shutdown_order_witness:
  "\<exists>s. main (default_options\<lparr>batchSize := 1\<rparr>) accepting all_accepting insertion_order
          input1 sched1 = Ran s \<and>
       main_at s = Finished \<and> signalled s \<and> closed s \<and> outbox s = [] \<and> buffer s = [] \<and>
       list_all (\<lambda>w. at w = Returned) (pool s) \<and> rowCount (globals s) = 2"
proof -
  from ev_load obtain s where
    m: "main (default_options\<lparr>batchSize := 1\<rparr>) accepting all_accepting insertion_order
          input1 sched1 = Ran s"
    and f: "main_at s = Finished" and g: "globals s = \<lparr>columnCount = 6, rowCount = 2\<rparr>"
    by (auto split: outcome.splits)
  from shutdown_order [OF m] f g m show ?thesis by (auto simp: list_all_iff)
qed



end
